theory Spec2Isabelle
  imports Complex_Main
begin

section \<open>Integers and rectangles\<close>

text \<open>
  The C++ types \<^verbatim>\<open>int\<close> and \<^verbatim>\<open>int64\<close> are modelled as unbounded \<^typ>\<open>int\<close>: signed
  overflow is undefined behaviour in C++, so the model describes the executions in which
  no intermediate value leaves its type. Division of C++ integers truncates towards zero.
\<close>

definition int_div :: "int \<Rightarrow> int \<Rightarrow> int" where
  "int_div a b = sgn a * sgn b * (\<bar>a\<bar> div \<bar>b\<bar>)"

text \<open>
  \<^verbatim>\<open>static_cast<int>(std::sqrt(v))\<close> for an integral \<open>v \<ge> 0\<close>: the square root rounded
  down, found by bisection so that it can be evaluated. The double arithmetic of the source
  is modelled exactly (no rounding of the argument or of the root).
\<close>

function sqrt_search :: "int \<Rightarrow> int \<Rightarrow> int \<Rightarrow> int" where
  "sqrt_search lo hi n =
     (if hi \<le> lo + 1 then lo
      else if ((lo + hi) div 2) * ((lo + hi) div 2) \<le> n
           then sqrt_search ((lo + hi) div 2) hi n
           else sqrt_search lo ((lo + hi) div 2) n)"
  by pat_completeness auto
termination
  by (relation "measure (\<lambda>(lo, hi, n). nat (hi - lo))") auto

declare sqrt_search.simps [simp del]

definition sqrt_to_int :: "int \<Rightarrow> int" where
  "sqrt_to_int n = sqrt_search 0 (n + 1) n"

text \<open>
  Modelled from the spec: \<^verbatim>\<open>gfx::Rect\<close> (ui/gfx/rect.h) is not among the sources. A
  rectangle is an origin and a size; a size never holds a negative extent (the constructor
  and the setters clamp at 0); a rectangle is empty when either extent is 0.
\<close>

record Rect =
  rect_x :: int
  rect_y :: int
  rect_width :: int
  rect_height :: int

definition MakeRect :: "int \<Rightarrow> int \<Rightarrow> int \<Rightarrow> int \<Rightarrow> Rect" where
  "MakeRect px py w h =
     \<lparr>rect_x = px, rect_y = py, rect_width = max 0 w, rect_height = max 0 h\<rparr>"

definition right :: "Rect \<Rightarrow> int" where
  "right r = rect_x r + rect_width r"

definition bottom :: "Rect \<Rightarrow> int" where
  "bottom r = rect_y r + rect_height r"

definition IsEmpty :: "Rect \<Rightarrow> bool" where
  "IsEmpty r = (rect_width r \<le> 0 \<or> rect_height r \<le> 0)"

definition Inset :: "int \<Rightarrow> int \<Rightarrow> int \<Rightarrow> int \<Rightarrow> Rect \<Rightarrow> Rect" where
  "Inset left_inset top_inset right_inset bottom_inset r =
     \<lparr>rect_x = rect_x r + left_inset, rect_y = rect_y r + top_inset,
      rect_width = max (rect_width r - left_inset - right_inset) 0,
      rect_height = max (rect_height r - top_inset - bottom_inset) 0\<rparr>"

definition IntersectRects :: "Rect \<Rightarrow> Rect \<Rightarrow> Rect" where
  "IntersectRects a b =
     (if IsEmpty a \<or> IsEmpty b then MakeRect 0 0 0 0
      else
        (let ix = max (rect_x a) (rect_x b);
             iy = max (rect_y a) (rect_y b);
             ir = min (right a) (right b);
             ib = min (bottom a) (bottom b)
         in if ix \<ge> ir \<or> iy \<ge> ib then MakeRect 0 0 0 0
            else MakeRect ix iy (ir - ix) (ib - iy)))"

definition Contains :: "Rect \<Rightarrow> Rect \<Rightarrow> bool" where
  "Contains outer inner =
     (rect_x inner \<ge> rect_x outer \<and> right inner \<le> right outer \<and>
      rect_y inner \<ge> rect_y outer \<and> bottom inner \<le> bottom outer)"

definition Intersects :: "Rect \<Rightarrow> Rect \<Rightarrow> bool" where
  "Intersects a b =
     (\<not> (IsEmpty a \<or> IsEmpty b \<or> rect_x b \<ge> right a \<or> right b \<le> rect_x a \<or>
         rect_y b \<ge> bottom a \<or> bottom b \<le> rect_y a))"

text \<open>The pixels of a rectangle, and its area.\<close>

definition pixels :: "Rect \<Rightarrow> (int \<times> int) set" where
  "pixels r = {(px, py). rect_x r \<le> px \<and> px < right r \<and> rect_y r \<le> py \<and> py < bottom r}"

definition area :: "Rect \<Rightarrow> int" where
  "area r = rect_width r * rect_height r"

section \<open>Rectangle expansion\<close>

datatype failure = DCHECK_failed | Undefined_behaviour

text \<open>
  \<^verbatim>\<open>ComputeExpansionDelta\<close>. A division by zero (\<open>a = 0\<close> and \<open>b = 0\<close>) and the conversion
  to \<^verbatim>\<open>int\<close> of the square root of a negative number are undefined in C++.
\<close>

definition ComputeExpansionDelta :: "int \<Rightarrow> int \<Rightarrow> int \<Rightarrow> int \<Rightarrow> int \<Rightarrow> failure + int" where
  "ComputeExpansionDelta num_x_edges num_y_edges width height target_area =
     (let a = num_y_edges * num_x_edges;
          b = num_y_edges * width + num_x_edges * height;
          c = width * height - target_area
      in if a = 0
         then (if b = 0 then Inl Undefined_behaviour else Inr (int_div (- c) b))
         else (if b * b - 4 * a * c < 0 then Inl Undefined_behaviour
               else Inr (int_div (- b + sqrt_to_int (b * b - 4 * a * c)) (2 * a))))"

datatype Edge = BOTTOM | TOP | LEFT | RIGHT

record EdgeEvent =
  edge :: Edge
  distance :: int

text \<open>The variables of the expansion loop; \<open>num_edges\<close> of an event points to the counter of its axis.\<close>

record ExpandState =
  origin_x :: int
  origin_y :: int
  width :: int
  height :: int
  num_x_edges :: int
  num_y_edges :: int

fun decrement_num_edges :: "Edge \<Rightarrow> ExpandState \<Rightarrow> ExpandState" where
  "decrement_num_edges BOTTOM s = s\<lparr>num_y_edges := num_y_edges s - 1\<rparr>"
| "decrement_num_edges TOP s = s\<lparr>num_y_edges := num_y_edges s - 1\<rparr>"
| "decrement_num_edges LEFT s = s\<lparr>num_x_edges := num_x_edges s - 1\<rparr>"
| "decrement_num_edges RIGHT s = s\<lparr>num_x_edges := num_x_edges s - 1\<rparr>"

fun move_edge :: "int \<Rightarrow> Edge \<Rightarrow> ExpandState \<Rightarrow> ExpandState" where
  "move_edge delta BOTTOM s = s\<lparr>origin_y := origin_y s - delta, height := height s + delta\<rparr>"
| "move_edge delta TOP s = s\<lparr>height := height s + delta\<rparr>"
| "move_edge delta LEFT s = s\<lparr>origin_x := origin_x s - delta, width := width s + delta\<rparr>"
| "move_edge delta RIGHT s = s\<lparr>width := width s + delta\<rparr>"

definition swap_if_farther :: "EdgeEvent \<times> EdgeEvent \<Rightarrow> EdgeEvent \<times> EdgeEvent" where
  "swap_if_farther p = (if distance (fst p) > distance (snd p) then (snd p, fst p) else p)"

text \<open>The five compare-and-swap steps that sort the four events, closest first.\<close>

definition sort_events ::
  "EdgeEvent \<Rightarrow> EdgeEvent \<Rightarrow> EdgeEvent \<Rightarrow> EdgeEvent \<Rightarrow> EdgeEvent list" where
  "sort_events e0 e1 e2 e3 =
     (let (a0, a1) = swap_if_farther (e0, e1);
          (a2, a3) = swap_if_farther (e2, e3);
          (b0, b2) = swap_if_farther (a0, a2);
          (b1, b3) = swap_if_farther (a1, a3);
          (c1, c2) = swap_if_farther (b1, b2)
      in [b0, c1, c2, b3])"

text \<open>
  The loop over \<open>event_index\<close>. The list holds \<open>events[event_index..3]\<close>, the only entries
  an iteration reads or writes. \<open>event\<close> is a reference into the array, so the test after
  the inner loop reads the distance the inner loop has already reduced by \<open>delta\<close>.
\<close>

function expand_loop :: "int \<Rightarrow> EdgeEvent list \<Rightarrow> ExpandState \<Rightarrow> failure + ExpandState" where
  "expand_loop target_area [] s = Inr s"
| "expand_loop target_area (event # rest) s =
     (case ComputeExpansionDelta (num_x_edges s) (num_y_edges s) (width s) (height s)
             target_area of
        Inl e \<Rightarrow> Inl e
      | Inr d \<Rightarrow>
          (let delta = (if d > distance event then distance event else d);
               s1 = decrement_num_edges (edge event) s;
               s2 = fold (\<lambda>ev. move_edge delta (edge ev)) (event # rest) s1
           in if delta < distance event - delta then Inr s2
              else expand_loop target_area
                     (map (\<lambda>ev. ev\<lparr>distance := distance ev - delta\<rparr>) rest) s2))"
  by pat_completeness auto
termination
  by (relation "measure (\<lambda>(t, evs, s). length evs)") auto

text \<open>
  The single-entry memo. \<^verbatim>\<open>RectExpansionCache()\<close> starts with empty rectangles and
  target 0.
\<close>

record RectExpansionCache =
  previous_start :: Rect
  previous_bounds :: Rect
  previous_result :: Rect
  previous_target :: int

definition new_RectExpansionCache :: RectExpansionCache where
  "new_RectExpansionCache =
     \<lparr>previous_start = MakeRect 0 0 0 0, previous_bounds = MakeRect 0 0 0 0,
      previous_result = MakeRect 0 0 0 0, previous_target = 0\<rparr>"

definition store_result :: "Rect \<Rightarrow> RectExpansionCache option \<Rightarrow> RectExpansionCache option" where
  "store_result r cache = map_option (\<lambda>c. c\<lparr>previous_result := r\<rparr>) cache"

text \<open>
  \<^verbatim>\<open>ExpandRectEquallyToAreaBoundedBy\<close>. The cache pointer may be null (\<open>None\<close>); the
  function returns the rectangle and the cache as it leaves it. A failed \<^verbatim>\<open>DCHECK\<close> ends
  the run.
\<close>

definition ExpandRectEquallyToAreaBoundedBy ::
  "Rect \<Rightarrow> int \<Rightarrow> Rect \<Rightarrow> RectExpansionCache option \<Rightarrow>
     failure + (Rect \<times> RectExpansionCache option)" where
  "ExpandRectEquallyToAreaBoundedBy starting_rect target_area bounding_rect cache =
     (if IsEmpty starting_rect then Inr (starting_rect, cache)
      else if (case cache of None \<Rightarrow> False
               | Some c \<Rightarrow> previous_start c = starting_rect \<and>
                   previous_bounds c = bounding_rect \<and> previous_target c = target_area)
      then Inr (previous_result (the cache), cache)
      else
        (let cache1 = map_option (\<lambda>c. c\<lparr>previous_start := starting_rect,
                        previous_bounds := bounding_rect, previous_target := target_area\<rparr>) cache
         in if IsEmpty bounding_rect \<or> \<not> target_area > 0 then Inl DCHECK_failed
            else
              (case ComputeExpansionDelta 2 2 (rect_width starting_rect)
                      (rect_height starting_rect) target_area of
                 Inl e \<Rightarrow> Inl e
               | Inr delta \<Rightarrow>
                   (let expanded_starting_rect =
                          (if delta > 0 then Inset (- delta) (- delta) (- delta) (- delta) starting_rect
                           else starting_rect);
                        rect = IntersectRects expanded_starting_rect bounding_rect
                    in if IsEmpty rect then Inr (rect, store_result rect cache1)
                       else if delta \<ge> 0 \<and> rect = expanded_starting_rect
                       then Inr (rect, store_result rect cache1)
                       else
                         (case expand_loop target_area
                                 (sort_events
                                    \<lparr>edge = BOTTOM, distance = rect_y rect - rect_y bounding_rect\<rparr>
                                    \<lparr>edge = TOP, distance = bottom bounding_rect - bottom rect\<rparr>
                                    \<lparr>edge = LEFT, distance = rect_x rect - rect_x bounding_rect\<rparr>
                                    \<lparr>edge = RIGHT, distance = right bounding_rect - right rect\<rparr>)
                                 \<lparr>origin_x = rect_x rect, origin_y = rect_y rect,
                                  width = rect_width rect, height = rect_height rect,
                                  num_x_edges = 2, num_y_edges = 2\<rparr> of
                            Inl e \<Rightarrow> Inl e
                          | Inr s \<Rightarrow>
                              (let result = MakeRect (origin_x s) (origin_y s) (width s) (height s)
                               in Inr (result, store_result result cache1)))))))"

section \<open>Auxiliary notions for the proofs about the expansion\<close>

text \<open>
  The distance an edge of the loop's rectangle still has to the same edge of the bounding
  rectangle, the number of events of each axis, the relation "the rectangle of \<open>s'\<close> covers
  the rectangle of \<open>s\<close>", a list of events that holds given events with one edge each and two
  per axis, and what a memo holds: the key of a call, and (when it is valid) the result the
  function computes for the key it stores.
\<close>

fun edge_distance :: "Rect \<Rightarrow> Edge \<Rightarrow> ExpandState \<Rightarrow> int" where
  "edge_distance b BOTTOM s = origin_y s - rect_y b"
| "edge_distance b TOP s = bottom b - (origin_y s + height s)"
| "edge_distance b LEFT s = origin_x s - rect_x b"
| "edge_distance b RIGHT s = right b - (origin_x s + width s)"

fun is_x_edge :: "Edge \<Rightarrow> bool" where
  "is_x_edge BOTTOM = False"
| "is_x_edge TOP = False"
| "is_x_edge LEFT = True"
| "is_x_edge RIGHT = True"

fun x_edges :: "EdgeEvent list \<Rightarrow> int" where
  "x_edges [] = 0"
| "x_edges (ev # evs) = (if is_x_edge (edge ev) then 1 else 0) + x_edges evs"

fun y_edges :: "EdgeEvent list \<Rightarrow> int" where
  "y_edges [] = 0"
| "y_edges (ev # evs) = (if is_x_edge (edge ev) then 0 else 1) + y_edges evs"

definition covers :: "ExpandState \<Rightarrow> ExpandState \<Rightarrow> bool" where
  "covers s' s =
     (origin_x s' \<le> origin_x s \<and> origin_y s' \<le> origin_y s \<and>
      origin_x s + width s \<le> origin_x s' + width s' \<and>
      origin_y s + height s \<le> origin_y s' + height s')"

definition permuted :: "EdgeEvent list \<Rightarrow> EdgeEvent set \<Rightarrow> bool" where
  "permuted evs S = (distinct (map edge evs) \<and> x_edges evs = 2 \<and> y_edges evs = 2 \<and> set evs = S)"


definition cache_hit :: "RectExpansionCache \<Rightarrow> Rect \<Rightarrow> int \<Rightarrow> Rect \<Rightarrow> bool" where
  "cache_hit c starting_rect target_area bounding_rect =
     (previous_start c = starting_rect \<and> previous_bounds c = bounding_rect \<and>
      previous_target c = target_area)"

section \<open>Scaling, sizes and regions\<close>

text \<open>
  Modelled from the spec: \<^verbatim>\<open>gfx::Size\<close>, \<^verbatim>\<open>gfx::ScaleToEnclosingRect\<close>,
  \<^verbatim>\<open>gfx::ToCeiledSize(gfx::ScaleSize(...))\<close> (ui/gfx) and \<^verbatim>\<open>cc::Region\<close> (cc/base/region.h)
  are not among the sources. A \<^verbatim>\<open>float\<close> scale is modelled as a rational number and the
  products are exact: the rounding of the C++ float arithmetic is not modelled. A region is
  the list of the rectangles its iterator yields.
\<close>

record Size =
  size_width :: int
  size_height :: int

definition MakeSize :: "int \<Rightarrow> int \<Rightarrow> Size" where
  "MakeSize w h = \<lparr>size_width = max 0 w, size_height = max 0 h\<rparr>"

definition RectOfSize :: "Size \<Rightarrow> Rect" where
  "RectOfSize s = MakeRect 0 0 (size_width s) (size_height s)"

definition SizeIsEmpty :: "Size \<Rightarrow> bool" where
  "SizeIsEmpty s = (size_width s \<le> 0 \<or> size_height s \<le> 0)"

definition rect_size :: "Rect \<Rightarrow> Size" where
  "rect_size r = \<lparr>size_width = rect_width r, size_height = rect_height r\<rparr>"

definition set_size :: "Size \<Rightarrow> Rect \<Rightarrow> Rect" where
  "set_size s r = r\<lparr>rect_width := max 0 (size_width s), rect_height := max 0 (size_height s)\<rparr>"

definition ScaleToEnclosingRect :: "Rect \<Rightarrow> rat \<Rightarrow> rat \<Rightarrow> Rect" where
  "ScaleToEnclosingRect rect x_scale y_scale =
     (let sx = \<lfloor>of_int (rect_x rect) * x_scale\<rfloor>;
          sy = \<lfloor>of_int (rect_y rect) * y_scale\<rfloor>;
          sr = (if rect_width rect = 0 then sx else \<lceil>of_int (right rect) * x_scale\<rceil>);
          sb = (if rect_height rect = 0 then sy else \<lceil>of_int (bottom rect) * y_scale\<rceil>)
      in MakeRect sx sy (sr - sx) (sb - sy))"

definition ScaleToCeiledSize :: "Size \<Rightarrow> rat \<Rightarrow> rat \<Rightarrow> Size" where
  "ScaleToCeiledSize s x_scale y_scale =
     MakeSize \<lceil>of_int (size_width s) * x_scale\<rceil> \<lceil>of_int (size_height s) * y_scale\<rceil>"

type_synonym Region = "Rect list"

definition RegionIntersects :: "Region \<Rightarrow> Rect \<Rightarrow> bool" where
  "RegionIntersects region rect = (\<exists>r \<in> set region. Intersects r rect)"

text \<open>
  The region of one rectangle minus another rectangle, as horizontal bands: above, left of,
  right of and below the part that is cut out.
\<close>

definition SubtractRect :: "Rect \<Rightarrow> Rect \<Rightarrow> Region" where
  "SubtractRect r hole =
     (let c = IntersectRects r hole
      in if IsEmpty r then []
         else if IsEmpty c then [r]
         else filter (\<lambda>band. \<not> IsEmpty band)
                [MakeRect (rect_x r) (rect_y r) (rect_width r) (rect_y c - rect_y r),
                 MakeRect (rect_x r) (rect_y c) (rect_x c - rect_x r) (rect_height c),
                 MakeRect (right c) (rect_y c) (right r - right c) (rect_height c),
                 MakeRect (rect_x r) (bottom c) (rect_width r) (bottom r - bottom c)])"

section \<open>The tile grid\<close>

text \<open>
  Modelled from the spec: \<^verbatim>\<open>TilingData\<close> (cc/base/tiling_data.h) is not among the sources.
  It maps a coordinate to its tile index (clamped to the valid range), a tile index to its
  bounds and to its bounds with border, and a rectangle to the range of the tiles it
  overlaps, in row-major order; the difference iterator yields the tiles of one rectangle's
  range that are not in the range of another.
\<close>

record TilingData =
  max_texture_size :: Size
  total_size :: Size
  border_texels :: int

definition ComputeNumTiles :: "int \<Rightarrow> int \<Rightarrow> int \<Rightarrow> int" where
  "ComputeNumTiles max_texture total_length border =
     (if max_texture - 2 * border \<le> 0
      then (if total_length > 0 \<and> max_texture \<ge> total_length then 1 else 0)
      else if total_length > 0
           then max 1 (1 + int_div (total_length - 1 - 2 * border) (max_texture - 2 * border))
           else 0)"

definition num_tiles_x :: "TilingData \<Rightarrow> int" where
  "num_tiles_x td =
     ComputeNumTiles (size_width (max_texture_size td)) (size_width (total_size td))
       (border_texels td)"

definition num_tiles_y :: "TilingData \<Rightarrow> int" where
  "num_tiles_y td =
     ComputeNumTiles (size_height (max_texture_size td)) (size_height (total_size td))
       (border_texels td)"

definition index_from_coord :: "int \<Rightarrow> int \<Rightarrow> int \<Rightarrow> int \<Rightarrow> int" where
  "index_from_coord num_tiles max_texture border src_position =
     (if num_tiles \<le> 1 then 0
      else min (max (int_div (src_position - border) (max_texture - 2 * border)) 0)
             (num_tiles - 1))"

definition TileXIndexFromSrcCoord :: "TilingData \<Rightarrow> int \<Rightarrow> int" where
  "TileXIndexFromSrcCoord td src_position =
     index_from_coord (num_tiles_x td) (size_width (max_texture_size td)) (border_texels td)
       src_position"

definition TileYIndexFromSrcCoord :: "TilingData \<Rightarrow> int \<Rightarrow> int" where
  "TileYIndexFromSrcCoord td src_position =
     index_from_coord (num_tiles_y td) (size_height (max_texture_size td)) (border_texels td)
       src_position"

text \<open>The extent \<open>[lo, hi)\<close> of tile \<open>i\<close> on one axis, without its border.\<close>

definition tile_lo :: "int \<Rightarrow> int \<Rightarrow> int \<Rightarrow> int" where
  "tile_lo max_texture border i =
     (max_texture - 2 * border) * i + (if i \<noteq> 0 then border else 0)"

definition tile_hi :: "int \<Rightarrow> int \<Rightarrow> int \<Rightarrow> int \<Rightarrow> int \<Rightarrow> int" where
  "tile_hi num_tiles max_texture total_length border i =
     min ((max_texture - 2 * border) * (i + 1) + border +
          (if i + 1 = num_tiles then border else 0)) total_length"

definition TileBounds :: "TilingData \<Rightarrow> int \<Rightarrow> int \<Rightarrow> Rect" where
  "TileBounds td i j =
     (let lo_x = tile_lo (size_width (max_texture_size td)) (border_texels td) i;
          lo_y = tile_lo (size_height (max_texture_size td)) (border_texels td) j;
          hi_x = tile_hi (num_tiles_x td) (size_width (max_texture_size td))
                   (size_width (total_size td)) (border_texels td) i;
          hi_y = tile_hi (num_tiles_y td) (size_height (max_texture_size td))
                   (size_height (total_size td)) (border_texels td) j
      in MakeRect lo_x lo_y (hi_x - lo_x) (hi_y - lo_y))"

definition TileBoundsWithBorder :: "TilingData \<Rightarrow> int \<Rightarrow> int \<Rightarrow> Rect" where
  "TileBoundsWithBorder td i j =
     (let bounds = TileBounds td i j
      in if border_texels td \<noteq> 0
         then
           (let x1 = rect_x bounds - (if i > 0 then border_texels td else 0);
                x2 = right bounds + (if i < num_tiles_x td - 1 then border_texels td else 0);
                y1 = rect_y bounds - (if j > 0 then border_texels td else 0);
                y2 = bottom bounds + (if j < num_tiles_y td - 1 then border_texels td else 0)
            in MakeRect x1 y1 (x2 - x1) (y2 - y1))
         else bounds)"

text \<open>The cells with column in \<open>[l, r]\<close> and row in \<open>[t, b]\<close>, row by row.\<close>

definition cells_between :: "int \<Rightarrow> int \<Rightarrow> int \<Rightarrow> int \<Rightarrow> (int \<times> int) list" where
  "cells_between l t r b = concat (map (\<lambda>j. map (\<lambda>i. (i, j)) [l..r]) [t..b])"

definition IteratorCells :: "TilingData \<Rightarrow> Rect \<Rightarrow> (int \<times> int) list" where
  "IteratorCells td rect =
     (let clipped = IntersectRects rect (RectOfSize (total_size td))
      in if num_tiles_x td \<le> 0 \<or> num_tiles_y td \<le> 0 \<or> IsEmpty clipped then []
         else cells_between
                (TileXIndexFromSrcCoord td (rect_x clipped))
                (TileYIndexFromSrcCoord td (rect_y clipped))
                (TileXIndexFromSrcCoord td (right clipped - 1))
                (TileYIndexFromSrcCoord td (bottom clipped - 1)))"

definition DifferenceIteratorCells :: "TilingData \<Rightarrow> Rect \<Rightarrow> Rect \<Rightarrow> (int \<times> int) list" where
  "DifferenceIteratorCells td consider ignore =
     filter (\<lambda>cell. cell \<notin> set (IteratorCells td ignore)) (IteratorCells td consider)"

section \<open>Tiles, bundles and the store of shared bundles\<close>

datatype WhichTree = ACTIVE_TREE | PENDING_TREE

text \<open>A tile is an opaque object of the collaborator; the model holds its identity.\<close>

type_synonym Tile = nat

text \<open>
  Modelled from the spec: \<^verbatim>\<open>TileBundle\<close> (cc/resources/tile_bundle.h) is not among the
  sources. A bundle covers the grid cells from its offset on, \<open>bundle_width\<close> by
  \<open>bundle_height\<close> of them, and holds at most one tile per tree and cell. The
  swap-if-required hook reconciles state that a tree transition left pending; no operation
  modelled here is a tree transition, so the hook leaves the slots as they are.
\<close>

record TileBundle =
  index_offset_x :: int
  index_offset_y :: int
  bundle_width :: int
  bundle_height :: int
  slots :: "WhichTree \<times> int \<times> int \<Rightarrow> Tile option"

definition SwapTilesIfRequired :: "TileBundle \<Rightarrow> TileBundle" where
  "SwapTilesIfRequired b = b"

definition bundle_cells :: "TileBundle \<Rightarrow> (int \<times> int) list" where
  "bundle_cells b =
     cells_between (index_offset_x b) (index_offset_y b)
       (index_offset_x b + bundle_width b - 1) (index_offset_y b + bundle_height b - 1)"

definition BundleTileAt :: "TileBundle \<Rightarrow> WhichTree \<Rightarrow> int \<Rightarrow> int \<Rightarrow> Tile option" where
  "BundleTileAt b tree i j = slots b (tree, i, j)"

definition AddTileAt :: "WhichTree \<Rightarrow> int \<Rightarrow> int \<Rightarrow> Tile \<Rightarrow> TileBundle \<Rightarrow> TileBundle" where
  "AddTileAt tree i j tile b = b\<lparr>slots := (slots b)((tree, i, j) := Some tile)\<rparr>"

definition RemoveTileAt :: "WhichTree \<Rightarrow> int \<Rightarrow> int \<Rightarrow> TileBundle \<Rightarrow> bool \<times> TileBundle" where
  "RemoveTileAt tree i j b =
     (slots b (tree, i, j) \<noteq> None, b\<lparr>slots := (slots b)((tree, i, j) := None)\<rparr>)"

definition BundleIsEmpty :: "TileBundle \<Rightarrow> bool" where
  "BundleIsEmpty b =
     (\<forall>tree \<in> {ACTIVE_TREE, PENDING_TREE}. \<forall>cell \<in> set (bundle_cells b).
        slots b (tree, fst cell, snd cell) = None)"

text \<open>
  Bundles are reference counted and shared between twin tilings: the store maps the address
  of a bundle to the object, and a tiling's map holds addresses. The store also records what
  was asked of the collaborator: the bundles and the tiles it was asked to create.
\<close>

record World =
  bundle_store :: "nat \<Rightarrow> TileBundle"
  next_bundle :: nat
  next_tile :: nat
  bundle_requests :: "(int \<times> int \<times> int \<times> int) list"
  tile_requests :: "Rect list"

record PictureLayerTiling =
  contents_scale :: rat
  layer_bounds :: Size
  tiling_data :: TilingData
  bundle_tiling_data :: TilingData
  tile_bundles :: "int \<times> int \<Rightarrow> nat option"
  live_tiles_rect :: Rect
  current_tree :: WhichTree

text \<open>
  The collaborator (\<^verbatim>\<open>PictureLayerTilingClient\<close>): the twin tiling or null, the current
  invalidation, the tile size it chooses for a content size, and whether it yields a tile
  for an allocation rectangle (\<^verbatim>\<open>CreateTile\<close> may return null).
\<close>

record Client =
  GetTwinTiling :: "PictureLayerTiling option"
  GetInvalidation :: Region
  CalculateTileSize :: "Size \<Rightarrow> Size"
  tile_available :: "Rect \<Rightarrow> bool"

definition client_CreateTile :: "Client \<Rightarrow> Rect \<Rightarrow> World \<Rightarrow> Tile option \<times> World" where
  "client_CreateTile client tile_rect w =
     (if tile_available client tile_rect
      then (Some (next_tile w),
            w\<lparr>next_tile := Suc (next_tile w), tile_requests := tile_requests w @ [tile_rect]\<rparr>)
      else (None, w\<lparr>tile_requests := tile_requests w @ [tile_rect]\<rparr>))"

definition client_CreateTileBundle :: "int \<Rightarrow> int \<Rightarrow> int \<Rightarrow> int \<Rightarrow> World \<Rightarrow> nat \<times> World" where
  "client_CreateTileBundle offset_x offset_y w_cells h_cells w =
     (next_bundle w,
      w\<lparr>bundle_store := (bundle_store w)(next_bundle w :=
           \<lparr>index_offset_x = offset_x, index_offset_y = offset_y, bundle_width = w_cells,
            bundle_height = h_cells, slots = (\<lambda>slot. None)\<rparr>),
        next_bundle := Suc (next_bundle w),
        bundle_requests := bundle_requests w @ [(offset_x, offset_y, w_cells, h_cells)]\<rparr>)"

section \<open>The tiling\<close>

definition kTileBundleWidth :: int where
  "kTileBundleWidth = 2"

definition kTileBundleHeight :: int where
  "kTileBundleHeight = 2"

definition ComputeTileBundleIndex :: "int \<Rightarrow> int \<Rightarrow> int \<times> int" where
  "ComputeTileBundleIndex i j = (int_div i kTileBundleWidth, int_div j kTileBundleHeight)"

definition ComputeBundleTextureSize :: "Size \<Rightarrow> TilingData \<Rightarrow> Size" where
  "ComputeBundleTextureSize tile_size td =
     (let border = border_texels td;
          inner_tile_width = size_width tile_size - 2 * border;
          bundle_w = inner_tile_width * kTileBundleWidth + 2 * border;
          inner_tile_height = size_height tile_size - 2 * border;
          bundle_h = inner_tile_height * kTileBundleHeight + 2 * border
      in MakeSize bundle_w bundle_h)"

definition ContentRect :: "PictureLayerTiling \<Rightarrow> Rect" where
  "ContentRect t = RectOfSize (total_size (tiling_data t))"

definition TileBundleAt :: "PictureLayerTiling \<Rightarrow> int \<Rightarrow> int \<Rightarrow> nat option" where
  "TileBundleAt t i j = tile_bundles t (i, j)"

definition TileBundleContainingTileAt :: "PictureLayerTiling \<Rightarrow> int \<Rightarrow> int \<Rightarrow> nat option" where
  "TileBundleContainingTileAt t i j =
     (let key = ComputeTileBundleIndex i j in TileBundleAt t (fst key) (snd key))"

definition TileAt :: "World \<Rightarrow> PictureLayerTiling \<Rightarrow> WhichTree \<Rightarrow> int \<Rightarrow> int \<Rightarrow> Tile option" where
  "TileAt w t tree i j =
     (case TileBundleContainingTileAt t i j of
        None \<Rightarrow> None
      | Some bundle \<Rightarrow> BundleTileAt (SwapTilesIfRequired (bundle_store w bundle)) tree i j)"

type_synonym tiling_state = "World \<times> PictureLayerTiling"

definition CreateBundleForTileAt ::
  "Client \<Rightarrow> int \<Rightarrow> int \<Rightarrow> PictureLayerTiling option \<Rightarrow> tiling_state \<Rightarrow>
     failure + (nat \<times> tiling_state)" where
  "CreateBundleForTileAt client i j twin_tiling st =
     (let w = fst st; t = snd st; key = ComputeTileBundleIndex i j
      in if tile_bundles t key \<noteq> None then Inl DCHECK_failed
         else
           (let candidate_bundle =
                  (case twin_tiling of
                     None \<Rightarrow> None
                   | Some twin \<Rightarrow>
                       if max_texture_size (tiling_data t) = max_texture_size (tiling_data twin)
                       then TileBundleAt twin (fst key) (snd key) else None);
                (bundle, w1) =
                  (case candidate_bundle of
                     Some b \<Rightarrow> (b, w)
                   | None \<Rightarrow>
                       client_CreateTileBundle (fst key * kTileBundleWidth)
                         (snd key * kTileBundleHeight) kTileBundleWidth kTileBundleHeight w);
                w2 = w1\<lparr>bundle_store := (bundle_store w1)
                          (bundle := SwapTilesIfRequired (bundle_store w1 bundle))\<rparr>
            in Inr (bundle, (w2, t\<lparr>tile_bundles := (tile_bundles t)(key := Some bundle)\<rparr>))))"

definition add_tile :: "nat \<Rightarrow> WhichTree \<Rightarrow> int \<Rightarrow> int \<Rightarrow> Tile \<Rightarrow> World \<Rightarrow> World" where
  "add_tile bundle tree i j tile w =
     w\<lparr>bundle_store := (bundle_store w)(bundle := AddTileAt tree i j tile (bundle_store w bundle))\<rparr>"

definition CreateTile ::
  "Client \<Rightarrow> WhichTree \<Rightarrow> int \<Rightarrow> int \<Rightarrow> PictureLayerTiling option \<Rightarrow> tiling_state \<Rightarrow>
     failure + tiling_state" where
  "CreateTile client tree i j twin_tiling st =
     (case (case TileBundleContainingTileAt (snd st) i j of
              Some b \<Rightarrow> Inr (b, st)
            | None \<Rightarrow> CreateBundleForTileAt client i j twin_tiling st) of
        Inl e \<Rightarrow> Inl e
      | Inr (bundle, (w, t)) \<Rightarrow>
          (let paint_rect = TileBoundsWithBorder (tiling_data t) i j;
               tile_rect = set_size (max_texture_size (tiling_data t)) paint_rect;
               twin_tree = (if tree = ACTIVE_TREE then PENDING_TREE else ACTIVE_TREE);
               candidate_tile = BundleTileAt (bundle_store w bundle) twin_tree i j;
               rect = ScaleToEnclosingRect paint_rect (1 / contents_scale t) (1 / contents_scale t)
           in if candidate_tile \<noteq> None \<and> \<not> RegionIntersects (GetInvalidation client) rect
              then Inr (add_tile bundle tree i j (the candidate_tile) w, t)
              else
                (case client_CreateTile client tile_rect w of
                   (Some tile, w1) \<Rightarrow> Inr (add_tile bundle tree i j tile w1, t)
                 | (None, w1) \<Rightarrow> Inr (w1, t))))"

definition RemoveTile :: "WhichTree \<Rightarrow> int \<Rightarrow> int \<Rightarrow> tiling_state \<Rightarrow> bool \<times> tiling_state" where
  "RemoveTile tree i j st =
     (let w = fst st; t = snd st
      in case tile_bundles t (ComputeTileBundleIndex i j) of
           None \<Rightarrow> (False, st)
         | Some bundle \<Rightarrow>
             (let (removed, b) = RemoveTileAt tree i j (SwapTilesIfRequired (bundle_store w bundle))
              in (removed, (w\<lparr>bundle_store := (bundle_store w)(bundle := b)\<rparr>, t))))"

definition RemoveBundleContainingTileAtIfEmpty :: "int \<Rightarrow> int \<Rightarrow> tiling_state \<Rightarrow> tiling_state" where
  "RemoveBundleContainingTileAtIfEmpty i j st =
     (let w = fst st; t = snd st; key = ComputeTileBundleIndex i j
      in case tile_bundles t key of
           None \<Rightarrow> st
         | Some bundle \<Rightarrow>
             if BundleIsEmpty (bundle_store w bundle)
             then (w, t\<lparr>tile_bundles := (tile_bundles t)(key := None)\<rparr>)
             else st)"

definition Reset :: "PictureLayerTiling \<Rightarrow> PictureLayerTiling" where
  "Reset t = t\<lparr>live_tiles_rect := MakeRect 0 0 0 0, tile_bundles := (\<lambda>key. None)\<rparr>"

text \<open>A loop whose body may fail: the first failure ends it.\<close>

fun for_each :: "('a \<Rightarrow> 's \<Rightarrow> failure + 's) \<Rightarrow> 'a list \<Rightarrow> 's \<Rightarrow> failure + 's" where
  "for_each body [] st = Inr st"
| "for_each body (x # xs) st =
     (case body x st of Inl e \<Rightarrow> Inl e | Inr st' \<Rightarrow> for_each body xs st')"

definition remove_outside :: "WhichTree \<Rightarrow> int \<times> int \<Rightarrow> tiling_state \<Rightarrow> tiling_state" where
  "remove_outside tree cell st =
     RemoveBundleContainingTileAtIfEmpty (fst cell) (snd cell)
       (snd (RemoveTile tree (fst cell) (snd cell) st))"

definition SetLiveTilesRect :: "Client \<Rightarrow> Rect \<Rightarrow> tiling_state \<Rightarrow> failure + tiling_state" where
  "SetLiveTilesRect client new_live_tiles_rect st =
     (let t = snd st
      in if \<not> (IsEmpty new_live_tiles_rect \<or> Contains (ContentRect t) new_live_tiles_rect)
         then Inl DCHECK_failed
         else if live_tiles_rect t = new_live_tiles_rect then Inr st
         else
           (let st1 = fold (remove_outside (current_tree t))
                        (DifferenceIteratorCells (tiling_data t) (live_tiles_rect t)
                           new_live_tiles_rect) st
            in if IsEmpty new_live_tiles_rect
               then Inr (fst st1, (snd st1)\<lparr>live_tiles_rect := new_live_tiles_rect\<rparr>)
               else
                 (case for_each
                         (\<lambda>cell. CreateTile client (current_tree t) (fst cell) (snd cell)
                            (GetTwinTiling client))
                         (DifferenceIteratorCells (tiling_data t) new_live_tiles_rect
                            (live_tiles_rect t)) st1 of
                    Inl e \<Rightarrow> Inl e
                  | Inr st2 \<Rightarrow>
                      Inr (fst st2, (snd st2)\<lparr>live_tiles_rect := new_live_tiles_rect\<rparr>))))"

text \<open>
  The first loop of \<^verbatim>\<open>Invalidate\<close>: the state and \<open>new_tile_keys\<close> after the cells of
  one rectangle of the region.
\<close>

definition invalidate_cell ::
  "int \<times> int \<Rightarrow> tiling_state \<times> (int \<times> int) list \<Rightarrow> tiling_state \<times> (int \<times> int) list" where
  "invalidate_cell cell acc =
     (let (deleted, st') = RemoveTile PENDING_TREE (fst cell) (snd cell) (fst acc)
      in (st', if deleted then snd acc @ [cell] else snd acc))"

definition invalidate_rect ::
  "Rect \<Rightarrow> tiling_state \<times> (int \<times> int) list \<Rightarrow> tiling_state \<times> (int \<times> int) list" where
  "invalidate_rect layer_rect acc =
     (let t = snd (fst acc);
          content_rect = IntersectRects
            (ScaleToEnclosingRect layer_rect (contents_scale t) (contents_scale t))
            (live_tiles_rect t)
      in if IsEmpty content_rect then acc
         else fold invalidate_cell (IteratorCells (tiling_data t) content_rect) acc)"

definition Invalidate :: "Client \<Rightarrow> Region \<Rightarrow> tiling_state \<Rightarrow> failure + tiling_state" where
  "Invalidate client layer_region st =
     (if current_tree (snd st) \<noteq> PENDING_TREE then Inl DCHECK_failed
      else
        (let (st1, new_tile_keys) = fold invalidate_rect layer_region (st, [])
         in for_each
              (\<lambda>key. CreateTile client PENDING_TREE (fst key) (snd key) (GetTwinTiling client))
              new_tile_keys st1))"

definition SetLayerBounds :: "Client \<Rightarrow> Size \<Rightarrow> tiling_state \<Rightarrow> failure + tiling_state" where
  "SetLayerBounds client new_layer_bounds st =
     (let w = fst st; t = snd st
      in if layer_bounds t = new_layer_bounds then Inr st
         else if current_tree t \<noteq> PENDING_TREE \<or> SizeIsEmpty new_layer_bounds
         then Inl DCHECK_failed
         else
           (let old_layer_bounds = layer_bounds t;
                t1 = t\<lparr>layer_bounds := new_layer_bounds\<rparr>;
                content_bounds =
                  ScaleToCeiledSize new_layer_bounds (contents_scale t) (contents_scale t);
                tile_size = CalculateTileSize client content_bounds
            in if tile_size \<noteq> max_texture_size (tiling_data t1)
               then
                 (let td = (tiling_data t1)\<lparr>total_size := content_bounds,
                              max_texture_size := tile_size\<rparr>;
                      btd = (bundle_tiling_data t1)\<lparr>total_size := content_bounds,
                              max_texture_size := ComputeBundleTextureSize tile_size td\<rparr>
                  in Inr (w, Reset (t1\<lparr>tiling_data := td, bundle_tiling_data := btd\<rparr>)))
               else
                 (case SetLiveTilesRect client
                         (IntersectRects (live_tiles_rect t1) (RectOfSize content_bounds))
                         (w, t1) of
                    Inl e \<Rightarrow> Inl e
                  | Inr (w2, t2) \<Rightarrow>
                      Invalidate client
                        (SubtractRect (RectOfSize new_layer_bounds) (RectOfSize old_layer_bounds))
                        (w2, t2\<lparr>tiling_data := (tiling_data t2)\<lparr>total_size := content_bounds\<rparr>,
                               bundle_tiling_data :=
                                 (bundle_tiling_data t2)\<lparr>total_size := content_bounds\<rparr>\<rparr>))))"

section \<open>The coverage iterator\<close>








definition NewPictureLayerTiling :: "Client \<Rightarrow> rat \<Rightarrow> Size \<Rightarrow> failure + PictureLayerTiling" where
  "NewPictureLayerTiling client scale bounds =
     (let content_bounds = ScaleToCeiledSize bounds scale scale;
          tile_size = CalculateTileSize client content_bounds;
          td = \<lparr>max_texture_size = tile_size, total_size = content_bounds, border_texels = 1\<rparr>
      in if SizeIsEmpty (MakeSize \<lfloor>of_int (size_width bounds) * scale\<rfloor>
                            \<lfloor>of_int (size_height bounds) * scale\<rfloor>)
         then Inl DCHECK_failed
         else Inr \<lparr>contents_scale = scale, layer_bounds = bounds, tiling_data = td,
                   bundle_tiling_data =
                     \<lparr>max_texture_size = ComputeBundleTextureSize tile_size td,
                      total_size = content_bounds, border_texels = 1\<rparr>,
                   tile_bundles = (\<lambda>key. None), live_tiles_rect = MakeRect 0 0 0 0,
                   current_tree = PENDING_TREE\<rparr>)"

definition example_client :: Client where
  "example_client =
     \<lparr>GetTwinTiling = None, GetInvalidation = [], CalculateTileSize = (\<lambda>s. MakeSize 256 256),
      tile_available = (\<lambda>r. True)\<rparr>"

definition example_tiling :: PictureLayerTiling where
  "example_tiling =
     \<lparr>contents_scale = 1, layer_bounds = MakeSize 1000 1000,
      tiling_data = \<lparr>max_texture_size = MakeSize 256 256, total_size = MakeSize 1000 1000,
                      border_texels = 1\<rparr>,
      bundle_tiling_data = \<lparr>max_texture_size = MakeSize 510 510,
                             total_size = MakeSize 1000 1000, border_texels = 1\<rparr>,
      tile_bundles = (\<lambda>key. None), live_tiles_rect = MakeRect 0 0 0 0,
      current_tree = PENDING_TREE\<rparr>"


definition place_tile ::
  "Client \<Rightarrow> WhichTree \<Rightarrow> int \<Rightarrow> int \<Rightarrow> nat \<Rightarrow> tiling_state \<Rightarrow> tiling_state" where
  "place_tile client tree i j bundle st =
     (let w = fst st; t = snd st;
          paint_rect = TileBoundsWithBorder (tiling_data t) i j;
          tile_rect = set_size (max_texture_size (tiling_data t)) paint_rect;
          twin_tree = (if tree = ACTIVE_TREE then PENDING_TREE else ACTIVE_TREE);
          candidate_tile = BundleTileAt (bundle_store w bundle) twin_tree i j;
          rect = ScaleToEnclosingRect paint_rect (1 / contents_scale t) (1 / contents_scale t)
      in if candidate_tile \<noteq> None \<and> \<not> RegionIntersects (GetInvalidation client) rect
         then (add_tile bundle tree i j (the candidate_tile) w, t)
         else
           (case client_CreateTile client tile_rect w of
              (Some tile, w1) \<Rightarrow> (add_tile bundle tree i j tile w1, t)
            | (None, w1) \<Rightarrow> (w1, t)))"

definition adopt_bundle :: "int \<Rightarrow> int \<Rightarrow> nat \<Rightarrow> PictureLayerTiling \<Rightarrow> PictureLayerTiling" where
  "adopt_bundle i j bundle t =
     t\<lparr>tile_bundles := (tile_bundles t)(ComputeTileBundleIndex i j := Some bundle)\<rparr>"

definition twin_bundle :: "PictureLayerTiling \<Rightarrow> PictureLayerTiling option \<Rightarrow> int \<Rightarrow> int \<Rightarrow> nat option" where
  "twin_bundle t twin_tiling i j =
     (case twin_tiling of
        None \<Rightarrow> None
      | Some twin \<Rightarrow>
          if max_texture_size (tiling_data t) = max_texture_size (tiling_data twin)
          then tile_bundles twin (ComputeTileBundleIndex i j) else None)"

definition example_twin :: PictureLayerTiling where
  "example_twin =
     example_tiling\<lparr>tile_bundles := (\<lambda>key. if key = (0, 0) then Some 0 else None),
                    current_tree := ACTIVE_TREE\<rparr>"

definition example_twin_client :: Client where
  "example_twin_client = example_client\<lparr>GetTwinTiling := Some example_twin\<rparr>"

definition example_shared_world :: World where
  "example_shared_world =
     \<lparr>bundle_store = (\<lambda>b. \<lparr>index_offset_x = 0, index_offset_y = 0, bundle_width = 2,
                              bundle_height = 2,
                              slots = (\<lambda>slot. if b = 0 \<and> slot = (ACTIVE_TREE, 0, 0)
                                               then Some 7 else None)\<rparr>),
      next_bundle = 1, next_tile = 8, bundle_requests = [(0, 0, 2, 2)],
      tile_requests = [MakeRect 0 0 256 256]\<rparr>"

definition slots_inside :: "World \<Rightarrow> PictureLayerTiling \<Rightarrow> bool" where
  "slots_inside w t =
     (\<forall>key b tree i j. tile_bundles t key = Some b \<longrightarrow>
        slots (bundle_store w b) (tree, i, j) \<noteq> None \<longrightarrow>
        (i, j) \<in> set (bundle_cells (bundle_store w b)))"

definition distinct_bundles :: "PictureLayerTiling \<Rightarrow> bool" where
  "distinct_bundles t =
     (\<forall>key key' b. tile_bundles t key = Some b \<longrightarrow> tile_bundles t key' = Some b \<longrightarrow>
        key = key')"

definition clear_slot :: "WhichTree \<Rightarrow> int \<Rightarrow> int \<Rightarrow> nat \<Rightarrow> World \<Rightarrow> World" where
  "clear_slot tree i j b w =
     w\<lparr>bundle_store := (bundle_store w)
          (b := (bundle_store w b)\<lparr>slots := (slots (bundle_store w b))((tree, i, j) := None)\<rparr>)\<rparr>"

definition erase_bundle :: "int \<times> int \<Rightarrow> PictureLayerTiling \<Rightarrow> PictureLayerTiling" where
  "erase_bundle key t = t\<lparr>tile_bundles := (tile_bundles t)(key := None)\<rparr>"

definition cell_key :: "int \<times> int \<Rightarrow> int \<times> int" where
  "cell_key cell = ComputeTileBundleIndex (fst cell) (snd cell)"

definition example_live_world :: World where
  "example_live_world =
     \<lparr>bundle_store = (\<lambda>b. \<lparr>index_offset_x = 0, index_offset_y = 0, bundle_width = 2,
                              bundle_height = 2,
                              slots = (\<lambda>slot. if slot = (PENDING_TREE, 0, 0) then Some 0
                                               else if slot = (PENDING_TREE, 1, 0) then Some 1
                                               else None)\<rparr>),
      next_bundle = 1, next_tile = 2, bundle_requests = [(0, 0, 2, 2)],
      tile_requests = [MakeRect 0 0 256 256, MakeRect 253 0 256 256]\<rparr>"

definition example_live_tiling :: PictureLayerTiling where
  "example_live_tiling =
     example_tiling\<lparr>tile_bundles := (\<lambda>key. if key = (0, 0) then Some 0 else None),
                    live_tiles_rect := MakeRect 0 0 300 200\<rparr>"

section \<open>Proofs: rectangle expansion\<close>

lemma sqrt_search_bounds:
  "0 \<le> lo \<Longrightarrow> lo < hi \<Longrightarrow> lo * lo \<le> n \<Longrightarrow> n < hi * hi \<Longrightarrow>
   0 \<le> sqrt_search lo hi n \<and> sqrt_search lo hi n * sqrt_search lo hi n \<le> n \<and>
   n < (sqrt_search lo hi n + 1) * (sqrt_search lo hi n + 1)"
proof (induction lo hi n rule: sqrt_search.induct)
  case (1 lo hi n)
  show ?case
  proof (cases "hi \<le> lo + 1")
    case True
    with "1.prems" have "hi = lo + 1" by simp
    with "1.prems" show ?thesis by (simp add: sqrt_search.simps [of lo "lo + 1" n])
  next
    case False
    let ?mid = "(lo + hi) div 2"
    from False have mid: "lo < ?mid" "?mid < hi" by simp_all
    show ?thesis
    proof (cases "?mid * ?mid \<le> n")
      case True
      with False "1.IH"(1) [OF False True] "1.prems" mid show ?thesis
        by (simp add: sqrt_search.simps [of lo hi n])
    next
      case nle: False
      with False "1.IH"(2) [OF False nle] "1.prems" mid show ?thesis
        by (simp add: sqrt_search.simps [of lo hi n])
    qed
  qed
qed

lemma sqrt_to_int_bounds:
  assumes "0 \<le> n"
  shows "0 \<le> sqrt_to_int n" and "sqrt_to_int n * sqrt_to_int n \<le> n"
    and "n < (sqrt_to_int n + 1) * (sqrt_to_int n + 1)"
proof -
  have "0 \<le> n * n" by simp
  moreover have "(n + 1) * (n + 1) = n * n + 2 * n + 1" by (simp add: algebra_simps)
  ultimately have "n < (n + 1) * (n + 1)" using assms by linarith
  with assms sqrt_search_bounds [of 0 "n + 1" n]
  show "0 \<le> sqrt_to_int n" and "sqrt_to_int n * sqrt_to_int n \<le> n"
    and "n < (sqrt_to_int n + 1) * (sqrt_to_int n + 1)"
    by (simp_all add: sqrt_to_int_def)
qed

lemma sqrt_to_int_floor:
  assumes "0 \<le> n"
  shows "sqrt_to_int n = \<lfloor>sqrt (real_of_int n)\<rfloor>"
proof -
  let ?s = "sqrt_to_int n"
  note b = sqrt_to_int_bounds [OF assms]
  have "(real_of_int ?s)\<^sup>2 \<le> real_of_int n"
    using b(2) by (metis of_int_le_iff of_int_mult power2_eq_square)
  then have lo: "real_of_int ?s \<le> sqrt (real_of_int n)"
    by (rule real_le_rsqrt)
  have "real_of_int n < (real_of_int (?s + 1))\<^sup>2"
    using b(3) by (metis of_int_less_iff of_int_mult power2_eq_square)
  moreover have "0 \<le> real_of_int (?s + 1)" using b(1) by simp
  ultimately have hi: "sqrt (real_of_int n) < real_of_int (?s + 1)"
    by (intro real_less_lsqrt) simp_all
  from lo hi show ?thesis
    by (intro floor_unique [symmetric]) simp_all
qed

lemma int_div_nonneg: "0 \<le> a \<Longrightarrow> 0 < b \<Longrightarrow> int_div a b = a div b"
  by (cases "a = 0") (simp_all add: int_div_def)

lemma quadratic_delta:
  assumes a: "0 < a" and b: "0 \<le> b" and c: "c \<le> 0"
  defines "d \<equiv> int_div (- b + sqrt_to_int (b * b - 4 * a * c)) (2 * a)"
  shows "0 \<le> d" and "a * d * d + b * d + c \<le> 0"
    and "0 < a * (d + 1) * (d + 1) + b * (d + 1) + c"
proof -
  let ?D = "b * b - 4 * a * c"
  let ?s = "sqrt_to_int ?D"
  have ac: "a * c \<le> 0" using a c by (simp add: mult_le_0_iff)
  have D: "b * b \<le> ?D" using ac by simp
  have D0: "0 \<le> ?D" using D b by (meson mult_nonneg_nonneg order_trans)
  note s = sqrt_to_int_bounds [OF D0]
  have sb: "b \<le> ?s"
  proof (rule ccontr)
    assume "\<not> b \<le> ?s"
    then have "?s + 1 \<le> b" by simp
    with s(1) have "(?s + 1) * (?s + 1) \<le> b * b" by (intro mult_mono) simp_all
    with s(3) D show False by simp
  qed
  have d: "d = (?s - b) div (2 * a)"
    using sb a by (simp add: d_def int_div_nonneg)
  show d0: "0 \<le> d" using sb a by (simp add: d pos_imp_zdiv_nonneg_iff)
  have split: "?s - b = 2 * a * d + (?s - b) mod (2 * a)"
    unfolding d by simp
  have m: "0 \<le> (?s - b) mod (2 * a)" "(?s - b) mod (2 * a) < 2 * a"
    using a by simp_all
  have lo: "2 * a * d + b \<le> ?s" using split m(1) by linarith
  have hi: "?s + 1 \<le> 2 * a * (d + 1) + b" using split m(2) by (simp add: algebra_simps)
  have "0 \<le> 2 * a * d + b" using a b d0 by simp
  with lo have "(2 * a * d + b) * (2 * a * d + b) \<le> ?s * ?s"
    by (intro mult_mono) simp_all
  with s(2) have "(2 * a * d + b) * (2 * a * d + b) \<le> ?D" by linarith
  then have "4 * a * (a * d * d + b * d + c) \<le> 0" by (simp add: algebra_simps)
  with a show "a * d * d + b * d + c \<le> 0"
    by (simp add: mult_le_0_iff)
  from hi s(1) have "(?s + 1) * (?s + 1) \<le> (2 * a * (d + 1) + b) * (2 * a * (d + 1) + b)"
    by (intro mult_mono) simp_all
  with s(3) have "?D < (2 * a * (d + 1) + b) * (2 * a * (d + 1) + b)" by linarith
  then have "0 < 4 * a * (a * (d + 1) * (d + 1) + b * (d + 1) + c)" by (simp add: algebra_simps)
  with a show "0 < a * (d + 1) * (d + 1) + b * (d + 1) + c"
    by (simp add: zero_less_mult_iff)
qed

lemma compute_delta_total:
  assumes "0 \<le> nx" "0 \<le> ny" "0 < nx + ny" "0 < w" "0 < h" "0 \<le> t"
  shows "\<exists>d. ComputeExpansionDelta nx ny w h t = Inr d"
proof (cases "ny * nx = 0")
  case True
  then have "nx = 0 \<or> ny = 0" by auto
  then have "0 < ny * w + nx * h" using assms by auto
  with True show ?thesis by (simp add: ComputeExpansionDelta_def)
next
  case False
  let ?b = "ny * w + nx * h"
  have "?b * ?b - 4 * (ny * nx) * (w * h - t) =
        (ny * w - nx * h) * (ny * w - nx * h) + 4 * (ny * nx * t)"
    by (simp add: algebra_simps)
  moreover have "0 \<le> (ny * w - nx * h) * (ny * w - nx * h)" by simp
  moreover have "0 \<le> ny * nx * t" using assms by simp
  ultimately have "0 \<le> ?b * ?b - 4 * (ny * nx) * (w * h - t)" by linarith
  with False show ?thesis by (simp add: ComputeExpansionDelta_def Let_def)
qed

lemma compute_delta_grows:
  assumes "0 \<le> nx" "0 \<le> ny" "0 < nx + ny" "0 < w" "0 < h" "w * h \<le> t"
  shows "\<exists>d. ComputeExpansionDelta nx ny w h t = Inr d \<and> 0 \<le> d \<and>
           (w + nx * d) * (h + ny * d) \<le> t"
proof (cases "ny * nx = 0")
  case True
  let ?b = "ny * w + nx * h"
  from True have z: "nx = 0 \<or> ny = 0" by auto
  then have b: "0 < ?b" using assms by auto
  let ?d = "(t - w * h) div ?b"
  have d: "ComputeExpansionDelta nx ny w h t = Inr ?d"
    using True b assms by (simp add: ComputeExpansionDelta_def int_div_nonneg)
  have d0: "0 \<le> ?d" using b assms by (simp add: pos_imp_zdiv_nonneg_iff)
  have "t - w * h = ?b * ?d + (t - w * h) mod ?b" by simp
  moreover have "0 \<le> (t - w * h) mod ?b" using b by simp
  ultimately have "?b * ?d \<le> t - w * h" by linarith
  moreover have "(w + nx * ?d) * (h + ny * ?d) = w * h + ?b * ?d"
    using z by (auto simp: algebra_simps)
  ultimately have "(w + nx * ?d) * (h + ny * ?d) \<le> t" by linarith
  with d d0 show ?thesis by blast
next
  case False
  then have a: "0 < ny * nx" using assms
    by (metis mult_eq_0_iff mult_nonneg_nonneg order_le_less)
  let ?b = "ny * w + nx * h"
  let ?c = "w * h - t"
  have b: "0 \<le> ?b" using assms by simp
  have c: "?c \<le> 0" using assms by simp
  let ?D = "?b * ?b - 4 * (ny * nx) * ?c"
  let ?d = "int_div (- ?b + sqrt_to_int ?D) (2 * (ny * nx))"
  note q = quadratic_delta [OF a b c]
  have "ny * nx * ?c \<le> 0" using a c by (simp add: mult_le_0_iff)
  moreover have "0 \<le> ?b * ?b" by simp
  ultimately have "0 \<le> ?D" by linarith
  then have d: "ComputeExpansionDelta nx ny w h t = Inr ?d"
    using False by (simp add: ComputeExpansionDelta_def Let_def)
  have "(w + nx * ?d) * (h + ny * ?d) = ny * nx * ?d * ?d + ?b * ?d + ?c + t"
    by (simp add: algebra_simps)
  with q(2) have "(w + nx * ?d) * (h + ny * ?d) \<le> t" by linarith
  with d q(1) show ?thesis by blast
qed

lemma fold_move_counts [simp]:
  "num_x_edges (fold (\<lambda>ev. move_edge delta (edge ev)) evs s) = num_x_edges s"
  "num_y_edges (fold (\<lambda>ev. move_edge delta (edge ev)) evs s) = num_y_edges s"
proof (induction evs arbitrary: s)
  case Nil
  { case 1 show ?case by simp }
  { case 2 show ?case by simp }
next
  case (Cons ev evs)
  { case 1 show ?case by (cases "edge ev") (simp_all add: Cons) }
  { case 2 show ?case by (cases "edge ev") (simp_all add: Cons) }
qed

lemma fold_move_distance:
  "distinct (map edge evs) \<Longrightarrow>
   edge_distance b e (fold (\<lambda>ev. move_edge delta (edge ev)) evs s) =
     edge_distance b e s - (if e \<in> edge ` set evs then delta else 0)"
proof (induction evs arbitrary: s)
  case Nil
  show ?case by simp
next
  case (Cons ev evs)
  have one: "edge_distance b e (move_edge delta (edge ev) s) =
               edge_distance b e s - (if e = edge ev then delta else 0)"
    by (cases "edge ev"; cases e) simp_all
  from Cons.prems have "distinct (map edge evs)" and "edge ev \<notin> edge ` set evs" by simp_all
  with Cons.IH [of "move_edge delta (edge ev) s"] one show ?case by auto
qed

lemma fold_move_size:
  "width (fold (\<lambda>ev. move_edge delta (edge ev)) evs s) = width s + x_edges evs * delta"
  "height (fold (\<lambda>ev. move_edge delta (edge ev)) evs s) = height s + y_edges evs * delta"
proof (induction evs arbitrary: s)
  case Nil
  { case 1 show ?case by simp }
  { case 2 show ?case by simp }
next
  case (Cons ev evs)
  { case 1 show ?case using Cons(1) [of "move_edge delta (edge ev) s"]
      by (cases "edge ev") (simp_all add: algebra_simps) }
  { case 2 show ?case using Cons(2) [of "move_edge delta (edge ev) s"]
      by (cases "edge ev") (simp_all add: algebra_simps) }
qed

lemma fold_move_covers:
  "0 \<le> delta \<Longrightarrow> covers (fold (\<lambda>ev. move_edge delta (edge ev)) evs s) s"
proof (induction evs arbitrary: s)
  case Nil
  show ?case by (simp add: covers_def)
next
  case (Cons ev evs)
  have "covers (move_edge delta (edge ev) s) s"
    using Cons.prems by (cases "edge ev") (simp_all add: covers_def)
  with Cons.IH [OF Cons.prems, of "move_edge delta (edge ev) s"] show ?case
    by (simp add: covers_def)
qed

lemma x_edges_nonneg: "0 \<le> x_edges evs" "0 \<le> y_edges evs"
  by (induction evs) simp_all

lemma x_edges_map_distance [simp]:
  "x_edges (map (\<lambda>ev. ev\<lparr>distance := f ev\<rparr>) evs) = x_edges evs"
  "y_edges (map (\<lambda>ev. ev\<lparr>distance := f ev\<rparr>) evs) = y_edges evs"
  by (induction evs) simp_all

lemma decrement_num_edges_fields [simp]:
  "origin_x (decrement_num_edges e s) = origin_x s"
  "origin_y (decrement_num_edges e s) = origin_y s"
  "width (decrement_num_edges e s) = width s"
  "height (decrement_num_edges e s) = height s"
  "num_x_edges (decrement_num_edges e s) = num_x_edges s - (if is_x_edge e then 1 else 0)"
  "num_y_edges (decrement_num_edges e s) = num_y_edges s - (if is_x_edge e then 0 else 1)"
  by (cases e; simp)+

lemma edge_distance_decrement [simp]:
  "edge_distance b e (decrement_num_edges e' s) = edge_distance b e s"
  by (cases e) simp_all

lemma covers_refl: "covers s s"
  by (simp add: covers_def)

lemma covers_trans: "covers s3 s2 \<Longrightarrow> covers s2 s1 \<Longrightarrow> covers s3 s1"
  by (simp add: covers_def)

lemma covers_decrement [simp]: "covers s' (decrement_num_edges e s) = covers s' s"
  by (simp add: covers_def)

lemma move_edge_counts [simp]:
  "num_x_edges (move_edge delta e s) = num_x_edges s"
  "num_y_edges (move_edge delta e s) = num_y_edges s"
  by (cases e; simp)+

lemma sorted_shift_distance:
  "sorted (map distance evs) \<Longrightarrow>
   sorted (map distance (map (\<lambda>ev. ev\<lparr>distance := distance ev - delta\<rparr>) evs))"
  by (induction evs) auto

lemma expand_loop_result:
  assumes "distinct (map edge evs)" and "sorted (map distance evs)"
    and "\<forall>ev\<in>set evs. distance ev = edge_distance b (edge ev) s"
    and "\<forall>e. 0 \<le> edge_distance b e s"
    and "num_x_edges s = x_edges evs" and "num_y_edges s = y_edges evs"
    and "0 < width s" and "0 < height s" and "0 \<le> t"
  shows "\<exists>s'. expand_loop t evs s = Inr s' \<and> (\<forall>e. 0 \<le> edge_distance b e s') \<and>
           (width s * height s \<le> t \<longrightarrow> covers s' s)"
  using assms
proof (induction "length evs" arbitrary: evs s)
  case 0
  then show ?case by (simp add: covers_refl)
next
  case (Suc k)
  then obtain event rest where evs: "evs = event # rest" and k: "k = length rest"
    by (cases evs) simp_all
  note pr = Suc.prems [unfolded evs]
  let ?nx = "num_x_edges s" and ?ny = "num_y_edges s"
  have n: "0 \<le> ?nx" "0 \<le> ?ny" "0 < ?nx + ?ny"
    using pr(5,6) x_edges_nonneg [of rest] by simp_all
  obtain d where d: "ComputeExpansionDelta ?nx ?ny (width s) (height s) t = Inr d"
    using compute_delta_total [OF n pr(7,8,9)] by blast
  define delta where "delta = (if d > distance event then distance event else d)"
  define s2 where
    "s2 = fold (\<lambda>ev. move_edge delta (edge ev)) (event # rest)
            (decrement_num_edges (edge event) s)"
  define rest' where "rest' = map (\<lambda>ev. ev\<lparr>distance := distance ev - delta\<rparr>) rest"
  have step: "expand_loop t (event # rest) s =
                (if delta < distance event - delta then Inr s2 else expand_loop t rest' s2)"
    by (simp add: d Let_def delta_def s2_def rest'_def)
  have le: "delta \<le> distance event" by (simp add: delta_def)
  have far: "\<forall>ev\<in>set (event # rest). distance event \<le> distance ev"
    using pr(2) by auto
  have ed2: "edge_distance b e s2 =
               edge_distance b e s - (if e \<in> edge ` set (event # rest) then delta else 0)" for e
    unfolding s2_def using fold_move_distance [OF pr(1)] by simp
  have nonneg2: "0 \<le> edge_distance b e s2" for e
  proof (cases "e \<in> edge ` set (event # rest)")
    case True
    then obtain ev where ev: "ev \<in> set (event # rest)" "e = edge ev" by blast
    with pr(3) far le have "delta \<le> edge_distance b e s" by fastforce
    with True ed2 [of e] show ?thesis by simp
  next
    case False
    with ed2 [of e] pr(4) show ?thesis by simp
  qed
  have w2: "width s2 = width s + ?nx * delta" and h2: "height s2 = height s + ?ny * delta"
    unfolding s2_def
    using fold_move_size [of delta "event # rest" "decrement_num_edges (edge event) s"]
      pr(5,6) by simp_all
  have grow: "0 \<le> delta \<and> covers s2 s \<and> width s2 * height s2 \<le> t"
    if area: "width s * height s \<le> t"
  proof -
    from compute_delta_grows [OF n pr(7,8) area] d
    have d0: "0 \<le> d" and dt: "(width s + ?nx * d) * (height s + ?ny * d) \<le> t" by auto
    have "0 \<le> distance event" using pr(3,4) by simp
    with d0 have delta0: "0 \<le> delta" by (simp add: delta_def)
    have "delta \<le> d" by (simp add: delta_def)
    with n have "?nx * delta \<le> ?nx * d" "?ny * delta \<le> ?ny * d"
      by (simp_all add: mult_left_mono)
    moreover have "0 \<le> ?nx * d" "0 \<le> ?ny * delta" using n d0 delta0 by simp_all
    ultimately have "(width s + ?nx * delta) * (height s + ?ny * delta) \<le>
               (width s + ?nx * d) * (height s + ?ny * d)"
      using pr(7,8) by (intro mult_mono) simp_all
    with dt w2 h2 have "width s2 * height s2 \<le> t" by simp
    moreover have "covers s2 (decrement_num_edges (edge event) s)"
      unfolding s2_def by (rule fold_move_covers [OF delta0])
    then have "covers s2 s" by simp
    ultimately show ?thesis using delta0 by simp
  qed
  show ?case
  proof (cases "delta < distance event - delta")
    case True
    with step nonneg2 grow show ?thesis by (simp add: evs)
  next
    case False
    have "0 \<le> distance event" using pr(3,4) by simp
    with False le have delta0: "0 \<le> delta" by linarith
    have p1: "distinct (map edge rest')"
      using pr(1) by (simp add: rest'_def comp_def)
    have "sorted (map distance rest)" using pr(2) by simp
    then have p2: "sorted (map distance rest')"
      unfolding rest'_def by (rule sorted_shift_distance)
    have p3: "\<forall>ev\<in>set rest'. distance ev = edge_distance b (edge ev) s2"
      using pr(3) ed2 by (auto simp: rest'_def)
    have p5: "num_x_edges s2 = x_edges rest'" "num_y_edges s2 = y_edges rest'"
      unfolding s2_def rest'_def using pr(5,6) by simp_all
    have p7: "0 < width s2" "0 < height s2"
      using w2 h2 n delta0 pr(7,8) by (simp_all add: add_pos_nonneg)
    have p0: "k = length rest'" by (simp add: k rest'_def)
    from Suc.hyps(1) [OF p0 p1 p2 p3 _ p5 p7 pr(9)] nonneg2
    obtain s' where s': "expand_loop t rest' s2 = Inr s'" "\<forall>e. 0 \<le> edge_distance b e s'"
      "width s2 * height s2 \<le> t \<longrightarrow> covers s' s2" by blast
    have "covers s' s" if "width s * height s \<le> t"
      using grow [OF that] s'(3) covers_trans by blast
    with step False s' show ?thesis by (simp add: evs)
  qed
qed

lemma pixels_empty: "IsEmpty r \<Longrightarrow> pixels r = {}"
  by (auto simp: IsEmpty_def pixels_def right_def bottom_def)

lemma MakeRect_fields [simp]:
  "rect_x (MakeRect px py w h) = px" "rect_y (MakeRect px py w h) = py"
  "rect_width (MakeRect px py w h) = max 0 w" "rect_height (MakeRect px py w h) = max 0 h"
  by (simp_all add: MakeRect_def)

lemma pixels_IntersectRects: "pixels (IntersectRects a b) = pixels a \<inter> pixels b"
proof (cases "IsEmpty a \<or> IsEmpty b")
  case True
  then have "pixels a \<inter> pixels b = {}" using pixels_empty by auto
  moreover have "pixels (MakeRect 0 0 0 0) = {}" by (simp add: pixels_empty IsEmpty_def)
  ultimately show ?thesis using True by (simp add: IntersectRects_def)
next
  case False
  let ?ix = "max (rect_x a) (rect_x b)" and ?iy = "max (rect_y a) (rect_y b)"
  let ?ir = "min (right a) (right b)" and ?ib = "min (bottom a) (bottom b)"
  have both: "pixels a \<inter> pixels b = {(px, py). ?ix \<le> px \<and> px < ?ir \<and> ?iy \<le> py \<and> py < ?ib}"
    by (auto simp: pixels_def)
  show ?thesis
  proof (cases "?ix \<ge> ?ir \<or> ?iy \<ge> ?ib")
    case True
    then have "pixels a \<inter> pixels b = {}" unfolding both by auto
    moreover have "pixels (MakeRect 0 0 0 0) = {}" by (simp add: pixels_empty IsEmpty_def)
    ultimately show ?thesis using True False by (simp add: IntersectRects_def Let_def)
  next
    case nz: False
    then have "IntersectRects a b = MakeRect ?ix ?iy (?ir - ?ix) (?ib - ?iy)"
      using False by (simp add: IntersectRects_def Let_def)
    moreover have "max 0 (?ir - ?ix) = ?ir - ?ix" "max 0 (?ib - ?iy) = ?ib - ?iy"
      using nz by linarith+
    then have "pixels (MakeRect ?ix ?iy (?ir - ?ix) (?ib - ?iy)) =
        {(px, py). ?ix \<le> px \<and> px < ?ir \<and> ?iy \<le> py \<and> py < ?ib}"
      unfolding pixels_def right_def [of "MakeRect _ _ _ _"] bottom_def [of "MakeRect _ _ _ _"]
      by simp
    ultimately show ?thesis using both by simp
  qed
qed

lemma IntersectRects_nonempty:
  assumes "\<not> IsEmpty (IntersectRects a b)"
  shows "rect_x (IntersectRects a b) = max (rect_x a) (rect_x b)"
    and "rect_y (IntersectRects a b) = max (rect_y a) (rect_y b)"
    and "right (IntersectRects a b) = min (right a) (right b)"
    and "bottom (IntersectRects a b) = min (bottom a) (bottom b)"
    and "0 < rect_width (IntersectRects a b)" and "0 < rect_height (IntersectRects a b)"
  using assms
  by (auto simp: IntersectRects_def Let_def MakeRect_def IsEmpty_def right_def bottom_def
      split: if_splits)

lemma swap_if_farther_result:
  assumes "swap_if_farther (p, q) = (p', q')"
  shows "(p' = p \<and> q' = q) \<or> (p' = q \<and> q' = p)"
    and "distance p' \<le> distance q'"
    and "distance p' \<le> distance p" and "distance p' \<le> distance q"
    and "distance p \<le> distance q'" and "distance q \<le> distance q'"
  using assms by (auto simp: swap_if_farther_def split: if_splits)

lemma permuted_swap:
  assumes "permuted [p, q, r, s] S"
  shows "permuted [q, p, r, s] S" and "permuted [p, q, s, r] S" and "permuted [r, q, p, s] S"
    and "permuted [p, s, r, q] S" and "permuted [p, r, q, s] S"
  using assms by (auto simp: permuted_def)

lemma sort_events_track:
  fixes d0 d1 d2 d3 :: int
  defines "e0 \<equiv> \<lparr>edge = BOTTOM, distance = d0\<rparr>" and "e1 \<equiv> \<lparr>edge = TOP, distance = d1\<rparr>"
    and "e2 \<equiv> \<lparr>edge = LEFT, distance = d2\<rparr>" and "e3 \<equiv> \<lparr>edge = RIGHT, distance = d3\<rparr>"
  defines "evs \<equiv> sort_events e0 e1 e2 e3"
  shows "distinct (map edge evs)" and "sorted (map distance evs)"
    and "x_edges evs = 2" and "y_edges evs = 2" and "set evs = {e0, e1, e2, e3}"
proof -
  obtain a0 a1 where a: "swap_if_farther (e0, e1) = (a0, a1)" by force
  obtain a2 a3 where a': "swap_if_farther (e2, e3) = (a2, a3)" by force
  obtain b0 b2 where b: "swap_if_farther (a0, a2) = (b0, b2)" by force
  obtain b1 b3 where b': "swap_if_farther (a1, a3) = (b1, b3)" by force
  obtain c1 c2 where c: "swap_if_farther (b1, b2) = (c1, c2)" by force
  have evs: "evs = [b0, c1, c2, b3]"
    by (simp add: evs_def sort_events_def a a' b b' c)
  note ra = swap_if_farther_result [OF a] and ra' = swap_if_farther_result [OF a']
    and rb = swap_if_farther_result [OF b] and rb' = swap_if_farther_result [OF b']
    and rc = swap_if_farther_result [OF c]
  have "distance b0 \<le> distance b1"
    using rb'(1) rb(3,4) ra(2) ra'(2) by (elim disjE conjE) simp_all
  moreover have "distance b2 \<le> distance b3"
    using rb(1) rb'(5,6) ra(2) ra'(2) by (elim disjE conjE) simp_all
  ultimately have "distance b0 \<le> distance c1" "distance c2 \<le> distance b3"
    using rc(1) rb(2) rb'(2) by (elim disjE conjE; simp)+
  with rc(2) show "sorted (map distance evs)"
    unfolding evs by simp
  have p0: "permuted [e0, e1, e2, e3] {e0, e1, e2, e3}"
    by (simp add: permuted_def e0_def e1_def e2_def e3_def)
  have p1: "permuted [a0, a1, e2, e3] {e0, e1, e2, e3}"
    using ra(1) p0 permuted_swap(1) [OF p0] by (elim disjE conjE) simp_all
  have p2: "permuted [a0, a1, a2, a3] {e0, e1, e2, e3}"
    using ra'(1) p1 permuted_swap(2) [OF p1] by (elim disjE conjE) simp_all
  have p3: "permuted [b0, a1, b2, a3] {e0, e1, e2, e3}"
    using rb(1) p2 permuted_swap(3) [OF p2] by (elim disjE conjE) simp_all
  have p4: "permuted [b0, b1, b2, b3] {e0, e1, e2, e3}"
    using rb'(1) p3 permuted_swap(4) [OF p3] by (elim disjE conjE) simp_all
  have p5: "permuted [b0, c1, c2, b3] {e0, e1, e2, e3}"
    using rc(1) p4 permuted_swap(5) [OF p4] by (elim disjE conjE) simp_all
  then show "distinct (map edge evs)" "x_edges evs = 2" "y_edges evs = 2"
    "set evs = {e0, e1, e2, e3}"
    unfolding evs permuted_def by blast+
qed

lemma compute_delta_shrinks:
  assumes "0 < nx" "0 < ny" "0 < w" "0 < h" "0 \<le> t" "t < w * h"
    and d: "ComputeExpansionDelta nx ny w h t = Inr d"
  shows "d \<le> 0"
proof -
  let ?a = "ny * nx" and ?b = "ny * w + nx * h" and ?c = "w * h - t"
  let ?D = "?b * ?b - 4 * ?a * ?c"
  have a: "0 < ?a" using assms by simp
  have b: "0 < ?b" using assms by (simp add: add_pos_pos)
  have "0 < ?a * ?c" using a assms by simp
  then have lt: "?D < ?b * ?b" by (simp add: mult.assoc)
  from d a have D0: "0 \<le> ?D" and dd: "d = int_div (- ?b + sqrt_to_int ?D) (2 * ?a)"
    by (auto simp: ComputeExpansionDelta_def Let_def split: if_splits)
  note s = sqrt_to_int_bounds [OF D0]
  have "sqrt_to_int ?D < ?b"
  proof (rule ccontr)
    assume "\<not> sqrt_to_int ?D < ?b"
    then have "?b * ?b \<le> sqrt_to_int ?D * sqrt_to_int ?D"
      using b by (intro mult_mono) simp_all
    with s(2) lt show False by linarith
  qed
  then have "- ?b + sqrt_to_int ?D < 0" by simp
  then have "int_div (- ?b + sqrt_to_int ?D) (2 * ?a) \<le> 0"
    using a by (simp add: int_div_def sgn_if pos_imp_zdiv_nonneg_iff)
  with dd show ?thesis by simp
qed

lemma expand_uncached:
  assumes ne: "\<not> IsEmpty s" and t: "0 < t" and nb: "\<not> IsEmpty b"
  shows "\<exists>r. ExpandRectEquallyToAreaBoundedBy s t b None = Inr (r, None) \<and>
           pixels r \<subseteq> pixels b \<and> (IsEmpty r \<or> Contains b r) \<and>
           (area (IntersectRects s b) \<le> t \<longrightarrow> pixels (IntersectRects s b) \<subseteq> pixels r)"
proof -
  have wh: "0 < rect_width s" "0 < rect_height s" using ne by (simp_all add: IsEmpty_def)
  obtain delta where delta:
    "ComputeExpansionDelta 2 2 (rect_width s) (rect_height s) t = Inr delta"
    using compute_delta_total [of 2 2 "rect_width s" "rect_height s" t] wh t by auto
  define expanded where
    "expanded = (if delta > 0 then Inset (- delta) (- delta) (- delta) (- delta) s else s)"
  define rect where "rect = IntersectRects expanded b"
  have sub_exp: "pixels s \<subseteq> pixels expanded"
    by (auto simp: expanded_def pixels_def Inset_def right_def bottom_def)
  have base: "pixels (IntersectRects s b) \<subseteq> pixels rect"
    using sub_exp by (auto simp: rect_def pixels_IntersectRects)
  have rect_b: "pixels rect \<subseteq> pixels b" by (simp add: rect_def pixels_IntersectRects)
  have cont: "Contains b rect" if "\<not> IsEmpty rect"
    using IntersectRects_nonempty [of expanded b] that
    by (simp add: rect_def Contains_def)
  show ?thesis
  proof (cases "IsEmpty rect \<or> (delta \<ge> 0 \<and> rect = expanded)")
    case True
    then have "ExpandRectEquallyToAreaBoundedBy s t b None = Inr (rect, None)"
      using ne t nb delta
      by (auto simp: ExpandRectEquallyToAreaBoundedBy_def Let_def store_result_def
          expanded_def rect_def)
    with base rect_b cont show ?thesis by auto
  next
    case False
    then have nr: "\<not> IsEmpty rect" by simp
    note ir = IntersectRects_nonempty [of expanded b, folded rect_def, OF nr]
    define s0 where "s0 = \<lparr>origin_x = rect_x rect, origin_y = rect_y rect,
      width = rect_width rect, height = rect_height rect, num_x_edges = 2, num_y_edges = 2\<rparr>"
    define evs where "evs = sort_events
        \<lparr>edge = BOTTOM, distance = rect_y rect - rect_y b\<rparr>
        \<lparr>edge = TOP, distance = bottom b - bottom rect\<rparr>
        \<lparr>edge = LEFT, distance = rect_x rect - rect_x b\<rparr>
        \<lparr>edge = RIGHT, distance = right b - right rect\<rparr>"
    note tr = sort_events_track [of "rect_y rect - rect_y b" "bottom b - bottom rect"
        "rect_x rect - rect_x b" "right b - right rect", folded evs_def]
    have q3: "\<forall>ev\<in>set evs. distance ev = edge_distance b (edge ev) s0"
      unfolding tr(5) by (simp add: s0_def right_def bottom_def)
    have q4: "\<forall>e. 0 \<le> edge_distance b e s0"
    proof
      fix e show "0 \<le> edge_distance b e s0"
        using ir by (cases e) (simp_all add: s0_def right_def bottom_def)
    qed
    have "\<exists>s'. expand_loop t evs s0 = Inr s' \<and> (\<forall>e. 0 \<le> edge_distance b e s') \<and>
           (width s0 * height s0 \<le> t \<longrightarrow> covers s' s0)"
      using tr ir t by (intro expand_loop_result q3 q4) (simp_all add: s0_def)
    then obtain s' where s': "expand_loop t evs s0 = Inr s'"
      "\<forall>e. 0 \<le> edge_distance b e s'" "width s0 * height s0 \<le> t \<longrightarrow> covers s' s0" by blast
    define r where "r = MakeRect (origin_x s') (origin_y s') (width s') (height s')"
    have res: "ExpandRectEquallyToAreaBoundedBy s t b None = Inr (r, None)"
      using ne t nb delta False s'(1)
      by (auto simp add: ExpandRectEquallyToAreaBoundedBy_def Let_def store_result_def
          expanded_def [symmetric] rect_def [symmetric] s0_def [symmetric] evs_def [symmetric]
          r_def)
    have ed: "0 \<le> origin_y s' - rect_y b" "0 \<le> bottom b - (origin_y s' + height s')"
      "0 \<le> origin_x s' - rect_x b" "0 \<le> right b - (origin_x s' + width s')"
      using s'(2) [rule_format, of BOTTOM] s'(2) [rule_format, of TOP]
        s'(2) [rule_format, of LEFT] s'(2) [rule_format, of RIGHT] by simp_all
    have in_b: "pixels r \<subseteq> pixels b"
      using ed by (auto simp: r_def pixels_def MakeRect_def right_def bottom_def max_def
          split: if_splits)
    have cb: "IsEmpty r \<or> Contains b r"
      using ed by (auto simp: r_def IsEmpty_def Contains_def MakeRect_def right_def bottom_def
          max_def)
    have grow: "pixels (IntersectRects s b) \<subseteq> pixels r" if ar: "area (IntersectRects s b) \<le> t"
    proof -
      have "area rect \<le> t"
      proof (cases "delta > 0")
        case True
        have "rect_width s * rect_height s \<le> t"
        proof (rule ccontr)
          assume "\<not> rect_width s * rect_height s \<le> t"
          with compute_delta_shrinks [OF _ _ wh _ _ delta] t True show False by simp
        qed
        from compute_delta_grows [OF _ _ _ wh this, of 2 2] delta
        have dt: "(rect_width s + 2 * delta) * (rect_height s + 2 * delta) \<le> t" by simp
        have ew: "rect_width expanded = rect_width s + 2 * delta"
          "rect_height expanded = rect_height s + 2 * delta"
          using True wh by (simp_all add: expanded_def Inset_def)
        have "rect_width rect \<le> rect_width expanded" "rect_height rect \<le> rect_height expanded"
          using ir by (simp_all add: right_def bottom_def)
        then have "rect_width rect * rect_height rect \<le>
                   rect_width expanded * rect_height expanded"
          using ir(5,6) by (intro mult_mono) simp_all
        with dt ew show ?thesis by (simp add: area_def)
      next
        case False
        with ar show ?thesis by (simp add: rect_def expanded_def)
      qed
      then have "covers s' s0" using s'(3) by (simp add: s0_def area_def)
      then have "pixels rect \<subseteq> pixels r"
        using ir(5,6)
        by (auto simp: covers_def s0_def r_def pixels_def MakeRect_def right_def bottom_def
            max_def)
      with base show ?thesis by blast
    qed
    from res in_b cb grow show ?thesis by blast
  qed
qed

lemma expand_cached:
  "\<not> IsEmpty s \<Longrightarrow>
   ExpandRectEquallyToAreaBoundedBy s t b (Some c) =
     (if cache_hit c s t b then Inr (previous_result c, Some c)
      else (case ExpandRectEquallyToAreaBoundedBy s t b None of
              Inl e \<Rightarrow> Inl e
            | Inr (r, u) \<Rightarrow> Inr (r, Some \<lparr>previous_start = s, previous_bounds = b,
                                        previous_result = r, previous_target = t\<rparr>)))"
  by (simp add: ExpandRectEquallyToAreaBoundedBy_def cache_hit_def Let_def store_result_def
      split: sum.splits)




text \<open>
  Claim C6. For a non-empty starting rectangle, a positive target area and a non-empty
  bounding rectangle, a call with a memo returns a result and leaves a memo that holds the
  call's three inputs and that result; a second call with the same inputs and the memo the
  first call left returns the same result and leaves the memo as it is. When the memo did
  not hold the three inputs before the first call, it is overwritten with the inputs and the
  freshly computed result; when it did, it is left unchanged.
\<close>

theorem ExpandRect_memoized:
  assumes "\<not> IsEmpty starting_rect" and "0 < target_area" and "\<not> IsEmpty bounding_rect"
  shows "\<exists>result cache1.
           ExpandRectEquallyToAreaBoundedBy starting_rect target_area bounding_rect (Some cache0) =
             Inr (result, Some cache1) \<and>
           ExpandRectEquallyToAreaBoundedBy starting_rect target_area bounding_rect (Some cache1) =
             Inr (result, Some cache1) \<and>
           previous_result cache1 = result \<and>
           cache_hit cache1 starting_rect target_area bounding_rect \<and>
           (if cache_hit cache0 starting_rect target_area bounding_rect then cache1 = cache0
            else cache1 = \<lparr>previous_start = starting_rect, previous_bounds = bounding_rect,
                           previous_result = result, previous_target = target_area\<rparr> \<and>
                 ExpandRectEquallyToAreaBoundedBy starting_rect target_area bounding_rect None =
                   Inr (result, None))"
proof -
  from expand_uncached [OF assms] obtain r where r:
    "ExpandRectEquallyToAreaBoundedBy starting_rect target_area bounding_rect None = Inr (r, None)"
    by blast
  show ?thesis
  proof (cases "cache_hit cache0 starting_rect target_area bounding_rect")
    case True
    with assms(1) show ?thesis by (simp add: expand_cached)
  next
    case False
    let ?c1 = "\<lparr>previous_start = starting_rect, previous_bounds = bounding_rect,
                 previous_result = r, previous_target = target_area\<rparr>"
    have hit: "cache_hit ?c1 starting_rect target_area bounding_rect" by (simp add: cache_hit_def)
    from False assms(1) r hit show ?thesis by (simp add: expand_cached)
  qed
qed

theorem ExpandRect_memoized_witness:
  "\<not> IsEmpty (MakeRect 100 100 50 50) \<and> (0::int) < 20000 \<and> \<not> IsEmpty (MakeRect 0 0 200 200) \<and>
   (\<exists>result cache1.
      ExpandRectEquallyToAreaBoundedBy (MakeRect 100 100 50 50) 20000 (MakeRect 0 0 200 200)
        (Some new_RectExpansionCache) = Inr (result, Some cache1) \<and>
      ExpandRectEquallyToAreaBoundedBy (MakeRect 100 100 50 50) 20000 (MakeRect 0 0 200 200)
        (Some cache1) = Inr (result, Some cache1) \<and>
      previous_result cache1 = result \<and>
      cache_hit cache1 (MakeRect 100 100 50 50) 20000 (MakeRect 0 0 200 200))"
proof -
  have h1: "\<not> IsEmpty (MakeRect 100 100 50 50)" by (simp add: IsEmpty_def MakeRect_def)
  have h2: "(0::int) < 20000" by simp
  have h3: "\<not> IsEmpty (MakeRect 0 0 200 200)" by (simp add: IsEmpty_def MakeRect_def)
  from ExpandRect_memoized [OF h1 h2 h3, of new_RectExpansionCache] h1 h3 show ?thesis
    by auto
qed





lemma example_tiling_created:
  "NewPictureLayerTiling example_client 1 (MakeSize 1000 1000) = Inr example_tiling"
  by (simp add: NewPictureLayerTiling_def example_client_def example_tiling_def Let_def
      ScaleToCeiledSize_def MakeSize_def SizeIsEmpty_def ComputeBundleTextureSize_def
      kTileBundleWidth_def kTileBundleHeight_def)



lemma store_update_same [simp]: "w\<lparr>bundle_store := (bundle_store w)(b := bundle_store w b)\<rparr> = w"
  by simp

lemma TileBundleAt_key [simp]: "TileBundleAt t (fst key) (snd key) = tile_bundles t key"
  by (simp add: TileBundleAt_def)

lemma candidate_bundle_eq:
  "(case twin of None \<Rightarrow> None
     | Some twin \<Rightarrow>
         if max_texture_size (tiling_data t) = max_texture_size (tiling_data twin)
         then TileBundleAt twin (fst (ComputeTileBundleIndex i j))
                (snd (ComputeTileBundleIndex i j)) else None) = twin_bundle t twin i j"
  by (cases twin) (simp_all add: twin_bundle_def)

lemma CreateBundleForTileAt_result:
  assumes "tile_bundles t (ComputeTileBundleIndex i j) = None"
  shows "CreateBundleForTileAt client i j twin (w, t) =
           Inr (case twin_bundle t twin i j of
                  Some b \<Rightarrow> (b, (w, adopt_bundle i j b t))
                | None \<Rightarrow>
                    (next_bundle w,
                     (snd (client_CreateTileBundle
                             (fst (ComputeTileBundleIndex i j) * kTileBundleWidth)
                             (snd (ComputeTileBundleIndex i j) * kTileBundleHeight)
                             kTileBundleWidth kTileBundleHeight w),
                      adopt_bundle i j (next_bundle w) t)))"
proof (cases "twin_bundle t twin i j")
  case None
  with assms show ?thesis
    by (simp add: CreateBundleForTileAt_def candidate_bundle_eq Let_def adopt_bundle_def
        SwapTilesIfRequired_def client_CreateTileBundle_def)
next
  case (Some b)
  with assms show ?thesis
    by (simp add: CreateBundleForTileAt_def candidate_bundle_eq Let_def adopt_bundle_def
        SwapTilesIfRequired_def)
qed

lemma CreateTile_place:
  "CreateTile client tree i j twin st =
     (case (case TileBundleContainingTileAt (snd st) i j of
              Some b \<Rightarrow> Inr (b, st)
            | None \<Rightarrow> CreateBundleForTileAt client i j twin st) of
        Inl e \<Rightarrow> Inl e
      | Inr (bundle, st') \<Rightarrow> Inr (place_tile client tree i j bundle st'))"
  by (simp add: CreateTile_def place_tile_def Let_def split: sum.splits prod.splits option.splits)


lemma CreateTile_adopt:
  assumes "tile_bundles t (ComputeTileBundleIndex i j) = None"
    and "twin_bundle t twin i j = Some b"
  shows "CreateTile client tree i j twin (w, t) =
           Inr (place_tile client tree i j b (w, adopt_bundle i j b t))"
  using assms
  by (simp add: CreateTile_place TileBundleContainingTileAt_def TileBundleAt_def
      CreateBundleForTileAt_result)



lemma TileAt_in_bundle:
  "tile_bundles t (ComputeTileBundleIndex i j) = Some b \<Longrightarrow>
   TileAt w t tree i j = slots (bundle_store w b) (tree, i, j)"
  by (simp add: TileAt_def TileBundleContainingTileAt_def BundleTileAt_def
      SwapTilesIfRequired_def)

lemma slots_add_tile:
  "slots (bundle_store (add_tile b tree i j tile w) b') slot =
     (if b' = b \<and> slot = (tree, i, j) then Some tile else slots (bundle_store w b') slot)"
  by (simp add: add_tile_def AddTileAt_def)

lemma add_tile_fields [simp]:
  "tile_requests (add_tile b tree i j tile w) = tile_requests w"
  "next_tile (add_tile b tree i j tile w) = next_tile w"
  "bundle_requests (add_tile b tree i j tile w) = bundle_requests w"
  "next_bundle (add_tile b tree i j tile w) = next_bundle w"
  by (simp_all add: add_tile_def)

lemma place_tile_spec:
  assumes key: "tile_bundles t (ComputeTileBundleIndex i j) = Some b"
    and res: "place_tile client tree i j b (w, t) = (w', t')"
  defines "other_tree \<equiv> (if tree = ACTIVE_TREE then PENDING_TREE else ACTIVE_TREE)"
  defines "paint_rect \<equiv> TileBoundsWithBorder (tiling_data t) i j"
  defines "tile_rect \<equiv> set_size (max_texture_size (tiling_data t)) paint_rect"
  defines "layer_rect \<equiv>
    ScaleToEnclosingRect paint_rect (1 / contents_scale t) (1 / contents_scale t)"
  shows "t' = t"
    and "TileAt w' t' other_tree i j = TileAt w t other_tree i j"
    and "TileAt w t other_tree i j \<noteq> None \<and>
         \<not> RegionIntersects (GetInvalidation client) layer_rect \<Longrightarrow>
         TileAt w' t' tree i j = TileAt w t other_tree i j \<and>
         tile_requests w' = tile_requests w \<and> next_tile w' = next_tile w"
    and "\<not> (TileAt w t other_tree i j \<noteq> None \<and>
            \<not> RegionIntersects (GetInvalidation client) layer_rect) \<Longrightarrow>
         tile_requests w' = tile_requests w @ [tile_rect] \<and>
         (if tile_available client tile_rect
          then TileAt w' t' tree i j = Some (next_tile w) \<and> next_tile w' = Suc (next_tile w)
          else next_tile w' = next_tile w \<and> bundle_store w' = bundle_store w)"
proof -
  have ne: "other_tree \<noteq> tree" by (cases tree) (simp_all add: other_tree_def)
  have cand: "BundleTileAt (bundle_store w b) other_tree i j = TileAt w t other_tree i j"
    using key by (simp add: TileAt_in_bundle BundleTileAt_def)
  note defs = place_tile_def Let_def client_CreateTile_def
    other_tree_def [symmetric] paint_rect_def [symmetric] tile_rect_def [symmetric]
    layer_rect_def [symmetric] cand
  show t: "t' = t" using res by (auto simp: defs split: if_splits)
  show "TileAt w' t' other_tree i j = TileAt w t other_tree i j"
    using res ne key unfolding t
    by (auto simp: defs TileAt_in_bundle slots_add_tile split: if_splits)
  show "TileAt w' t' tree i j = TileAt w t other_tree i j \<and>
        tile_requests w' = tile_requests w \<and> next_tile w' = next_tile w"
    if "TileAt w t other_tree i j \<noteq> None \<and>
        \<not> RegionIntersects (GetInvalidation client) layer_rect"
    using res that key unfolding t
    by (auto simp: defs TileAt_in_bundle slots_add_tile)
  show "tile_requests w' = tile_requests w @ [tile_rect] \<and>
         (if tile_available client tile_rect
          then TileAt w' t' tree i j = Some (next_tile w) \<and> next_tile w' = Suc (next_tile w)
          else next_tile w' = next_tile w \<and> bundle_store w' = bundle_store w)"
    if "\<not> (TileAt w t other_tree i j \<noteq> None \<and>
            \<not> RegionIntersects (GetInvalidation client) layer_rect)"
    using res that key unfolding t
    by (auto simp: defs TileAt_in_bundle slots_add_tile split: if_splits)
qed



lemma place_tile_bundles:
  assumes "place_tile client tree i j b (w, t) = (w', t')"
  shows "bundle_requests w' = bundle_requests w" and "next_bundle w' = next_bundle w"
  using assms
  by (auto simp: place_tile_def Let_def client_CreateTile_def split: if_splits)

text \<open>
  Claim C5. When a tile is created at a cell whose bundle key is absent from this tiling's
  map, and the twin tiling has the same tile size and holds a bundle at that key, the twin's
  bundle itself (the same address) is stored at the key and the collaborator is not asked
  for a bundle; afterwards every slot of that bundle reads the same through the twin as
  through this tiling, so that the tile stored by the call (there is one whenever the
  collaborator yields tiles) is reachable from the twin.
\<close>

theorem CreateTile_shares_twin_bundle:
  assumes "tile_bundles t (ComputeTileBundleIndex i j) = None"
    and "max_texture_size (tiling_data t) = max_texture_size (tiling_data twin)"
    and "tile_bundles twin (ComputeTileBundleIndex i j) = Some bundle"
  shows "\<exists>w' t'. CreateTile client tree i j (Some twin) (w, t) = Inr (w', t') \<and>
           tile_bundles t' (ComputeTileBundleIndex i j) = Some bundle \<and>
           bundle_requests w' = bundle_requests w \<and> next_bundle w' = next_bundle w \<and>
           (\<forall>tree' i' j'. ComputeTileBundleIndex i' j' = ComputeTileBundleIndex i j \<longrightarrow>
              TileAt w' twin tree' i' j' = TileAt w' t' tree' i' j') \<and>
           (tile_available client
              (set_size (max_texture_size (tiling_data t))
                 (TileBoundsWithBorder (tiling_data t) i j)) \<longrightarrow>
            TileAt w' twin tree i j \<noteq> None)"
proof -
  have tb: "twin_bundle t (Some twin) i j = Some bundle"
    using assms(2,3) by (simp add: twin_bundle_def)
  let ?t0 = "adopt_bundle i j bundle t"
  obtain w' t' where r: "place_tile client tree i j bundle (w, ?t0) = (w', t')" by force
  have key: "tile_bundles ?t0 (ComputeTileBundleIndex i j) = Some bundle"
    by (simp add: adopt_bundle_def)
  note s = place_tile_spec [OF key r]
  have c: "CreateTile client tree i j (Some twin) (w, t) = Inr (w', t')"
    using CreateTile_adopt [OF assms(1) tb] r by simp
  have same: "TileAt w' twin tree' i' j' = TileAt w' t' tree' i' j'"
    if "ComputeTileBundleIndex i' j' = ComputeTileBundleIndex i j" for tree' i' j'
    using that assms(3) key s(1) by (simp add: TileAt_in_bundle)
  have td: "tiling_data ?t0 = tiling_data t" by (simp add: adopt_bundle_def)
  have stored: "TileAt w' t' tree i j \<noteq> None"
    if "tile_available client (set_size (max_texture_size (tiling_data t))
                 (TileBoundsWithBorder (tiling_data t) i j))"
  proof (cases "TileAt w ?t0 (if tree = ACTIVE_TREE then PENDING_TREE else ACTIVE_TREE) i j \<noteq> None \<and>
         \<not> RegionIntersects (GetInvalidation client)
            (ScaleToEnclosingRect (TileBoundsWithBorder (tiling_data ?t0) i j)
               (1 / contents_scale ?t0) (1 / contents_scale ?t0))")
    case True
    from s(3) [OF True] True show ?thesis by simp
  next
    case False
    from s(4) [OF False] that show ?thesis unfolding td by simp
  qed
  have t': "t' = ?t0" by (rule s(1))
  have "tile_bundles t' (ComputeTileBundleIndex i j) = Some bundle"
    using key t' by simp
  moreover have "\<forall>tree' i' j'. ComputeTileBundleIndex i' j' = ComputeTileBundleIndex i j \<longrightarrow>
              TileAt w' twin tree' i' j' = TileAt w' t' tree' i' j'"
    using same by blast
  moreover have "tile_available client
              (set_size (max_texture_size (tiling_data t))
                 (TileBoundsWithBorder (tiling_data t) i j)) \<longrightarrow>
            TileAt w' twin tree i j \<noteq> None"
    using same [OF refl, of tree] stored by simp
  ultimately show ?thesis
    using c place_tile_bundles [OF r] by blast
qed

theorem CreateTile_shares_twin_bundle_witness:
  "tile_bundles example_tiling (ComputeTileBundleIndex 1 1) = None \<and>
   max_texture_size (tiling_data example_tiling) = max_texture_size (tiling_data example_twin) \<and>
   tile_bundles example_twin (ComputeTileBundleIndex 1 1) = Some 0 \<and>
   (\<exists>w' t'. CreateTile example_twin_client PENDING_TREE 1 1 (Some example_twin)
              (example_shared_world, example_tiling) = Inr (w', t') \<and>
      tile_bundles t' (0, 0) = Some 0 \<and>
      bundle_requests w' = bundle_requests example_shared_world \<and>
      TileAt w' example_twin PENDING_TREE 1 1 = TileAt w' t' PENDING_TREE 1 1 \<and>
      TileAt w' example_twin PENDING_TREE 1 1 \<noteq> None)"
proof -
  have k: "ComputeTileBundleIndex 1 1 = (0, 0)"
    by (simp add: ComputeTileBundleIndex_def int_div_def kTileBundleWidth_def
        kTileBundleHeight_def)
  have h1: "tile_bundles example_tiling (ComputeTileBundleIndex 1 1) = None"
    by (simp add: example_tiling_def)
  have h2: "max_texture_size (tiling_data example_tiling) =
            max_texture_size (tiling_data example_twin)"
    by (simp add: example_tiling_def example_twin_def)
  have h3: "tile_bundles example_twin (ComputeTileBundleIndex 1 1) = Some 0"
    by (simp add: example_twin_def k)
  have av: "tile_available example_twin_client r" for r
    by (simp add: example_twin_client_def example_client_def)
  from CreateTile_shares_twin_bundle [OF h1 h2 h3, of example_twin_client PENDING_TREE
      example_shared_world] av
  obtain w' t' where "CreateTile example_twin_client PENDING_TREE 1 1 (Some example_twin)
              (example_shared_world, example_tiling) = Inr (w', t')"
    "tile_bundles t' (ComputeTileBundleIndex 1 1) = Some 0"
    "bundle_requests w' = bundle_requests example_shared_world"
    "\<forall>tree' i' j'. ComputeTileBundleIndex i' j' = ComputeTileBundleIndex 1 1 \<longrightarrow>
              TileAt w' example_twin tree' i' j' = TileAt w' t' tree' i' j'"
    "TileAt w' example_twin PENDING_TREE 1 1 \<noteq> None"
    by blast
  then have "CreateTile example_twin_client PENDING_TREE 1 1 (Some example_twin)
              (example_shared_world, example_tiling) = Inr (w', t') \<and>
      tile_bundles t' (0, 0) = Some 0 \<and>
      bundle_requests w' = bundle_requests example_shared_world \<and>
      TileAt w' example_twin PENDING_TREE 1 1 = TileAt w' t' PENDING_TREE 1 1 \<and>
      TileAt w' example_twin PENDING_TREE 1 1 \<noteq> None"
    by (simp add: k)
  with h1 h2 h3 show ?thesis by blast
qed

lemma int_div_mono:
  assumes "0 < d" and "a \<le> b"
  shows "int_div a d \<le> int_div b d"
proof -
  have pos: "int_div x d = x div d" if "0 \<le> x" for x
    using that assms(1) by (rule int_div_nonneg)
  have neg: "int_div x d = - ((- x) div d)" if "x < 0" for x
    using that assms(1) by (simp add: int_div_def)
  consider "0 \<le> a" | "a < 0" "0 \<le> b" | "b < 0" using assms(2) by linarith
  then show ?thesis
  proof cases
    case 1
    with assms have "0 \<le> b" by simp
    with 1 pos assms show ?thesis by (simp add: zdiv_mono1)
  next
    case 2
    have "0 \<le> (- a) div d" using 2 assms(1) by (simp add: pos_imp_zdiv_nonneg_iff)
    moreover have "0 \<le> b div d" using 2 assms(1) by (simp add: pos_imp_zdiv_nonneg_iff)
    ultimately show ?thesis using 2 pos neg by simp
  next
    case 3
    with assms have a: "a < 0" by simp
    have "(- b) div d \<le> (- a) div d" using assms by (simp add: zdiv_mono1)
    with 3 a neg show ?thesis by simp
  qed
qed

lemma ComputeNumTiles_many: "1 < ComputeNumTiles m total_length border \<Longrightarrow> 0 < m - 2 * border"
  by (simp add: ComputeNumTiles_def split: if_splits)

lemma index_from_coord_mono:
  assumes "x \<le> y" and "1 < n \<Longrightarrow> 0 < m - 2 * border"
  shows "index_from_coord n m border x \<le> index_from_coord n m border y"
proof (cases "n \<le> 1")
  case True
  then show ?thesis by (simp add: index_from_coord_def)
next
  case False
  with assms(2) have "0 < m - 2 * border" by simp
  from int_div_mono [OF this, of "x - border" "y - border"] assms(1)
  have "int_div (x - border) (m - 2 * border) \<le> int_div (y - border) (m - 2 * border)"
    by simp
  then show ?thesis using False by (simp add: index_from_coord_def) linarith
qed

lemma index_from_coord_nonneg: "0 \<le> index_from_coord n m border x"
  by (simp add: index_from_coord_def)

lemma TileIndex_mono:
  assumes "x \<le> y"
  shows "TileXIndexFromSrcCoord td x \<le> TileXIndexFromSrcCoord td y"
    and "TileYIndexFromSrcCoord td x \<le> TileYIndexFromSrcCoord td y"
  unfolding TileXIndexFromSrcCoord_def TileYIndexFromSrcCoord_def
  using assms ComputeNumTiles_many
  by (auto intro!: index_from_coord_mono simp: num_tiles_x_def num_tiles_y_def)

lemma set_cells_between: "set (cells_between l t r b) = {l..r} \<times> {t..b}"
  by (auto simp: cells_between_def)

lemma pixels_nonempty: "pixels r \<noteq> {} \<longleftrightarrow> \<not> IsEmpty r"
proof
  assume "pixels r \<noteq> {}"
  then show "\<not> IsEmpty r" using pixels_empty by blast
next
  assume "\<not> IsEmpty r"
  then have "(rect_x r, rect_y r) \<in> pixels r"
    by (simp add: pixels_def IsEmpty_def right_def bottom_def)
  then show "pixels r \<noteq> {}" by blast
qed

lemma Contains_pixels: "Contains outer inner \<Longrightarrow> pixels inner \<subseteq> pixels outer"
  by (auto simp: Contains_def pixels_def)

lemma IteratorCells_mono:
  assumes "IsEmpty B \<or> Contains A B"
  shows "set (IteratorCells td B) \<subseteq> set (IteratorCells td A)"
proof (cases "num_tiles_x td \<le> 0 \<or> num_tiles_y td \<le> 0 \<or>
              IsEmpty (IntersectRects B (RectOfSize (total_size td)))")
  case True
  then show ?thesis by (auto simp: IteratorCells_def Let_def)
next
  case False
  let ?bounds = "RectOfSize (total_size td)"
  let ?cB = "IntersectRects B ?bounds" and ?cA = "IntersectRects A ?bounds"
  from False have neB: "\<not> IsEmpty ?cB" by simp
  then have "\<not> IsEmpty B" by (auto simp: IntersectRects_def MakeRect_def IsEmpty_def)
  with assms have c: "Contains A B" by simp
  then have "pixels ?cB \<subseteq> pixels ?cA"
    using Contains_pixels by (auto simp: pixels_IntersectRects)
  with neB have neA: "\<not> IsEmpty ?cA" using pixels_nonempty by blast
  note b = IntersectRects_nonempty [OF neB] and a = IntersectRects_nonempty [OF neA]
  have le: "rect_x ?cA \<le> rect_x ?cB" "rect_y ?cA \<le> rect_y ?cB"
    "right ?cB - 1 \<le> right ?cA - 1" "bottom ?cB - 1 \<le> bottom ?cA - 1"
    using c unfolding a(1-4) b(1-4) by (auto simp: Contains_def)
  have m: "TileXIndexFromSrcCoord td (rect_x ?cA) \<le> TileXIndexFromSrcCoord td (rect_x ?cB)"
    "TileYIndexFromSrcCoord td (rect_y ?cA) \<le> TileYIndexFromSrcCoord td (rect_y ?cB)"
    "TileXIndexFromSrcCoord td (right ?cB - 1) \<le> TileXIndexFromSrcCoord td (right ?cA - 1)"
    "TileYIndexFromSrcCoord td (bottom ?cB - 1) \<le> TileYIndexFromSrcCoord td (bottom ?cA - 1)"
    by (rule TileIndex_mono, rule le)+
  have "set (IteratorCells td B) =
      {TileXIndexFromSrcCoord td (rect_x ?cB)..TileXIndexFromSrcCoord td (right ?cB - 1)} \<times>
      {TileYIndexFromSrcCoord td (rect_y ?cB)..TileYIndexFromSrcCoord td (bottom ?cB - 1)}"
    using False by (simp add: IteratorCells_def Let_def set_cells_between)
  moreover have "set (IteratorCells td A) =
      {TileXIndexFromSrcCoord td (rect_x ?cA)..TileXIndexFromSrcCoord td (right ?cA - 1)} \<times>
      {TileYIndexFromSrcCoord td (rect_y ?cA)..TileYIndexFromSrcCoord td (bottom ?cA - 1)}"
    using False neA by (simp add: IteratorCells_def Let_def set_cells_between)
  ultimately show ?thesis using m by auto
qed

lemma DifferenceIteratorCells_contained:
  "IsEmpty B \<or> Contains A B \<Longrightarrow> DifferenceIteratorCells td B A = []"
  using IteratorCells_mono [of B A td]
  by (auto simp: DifferenceIteratorCells_def filter_empty_conv)

lemma remove_outside_eq:
  "remove_outside tree (i, j) (w, t) =
     (case tile_bundles t (ComputeTileBundleIndex i j) of
        None \<Rightarrow> (w, t)
      | Some b \<Rightarrow>
          if BundleIsEmpty (bundle_store (clear_slot tree i j b w) b)
          then (clear_slot tree i j b w, erase_bundle (ComputeTileBundleIndex i j) t)
          else (clear_slot tree i j b w, t))"
  by (simp add: remove_outside_def RemoveTile_def RemoveBundleContainingTileAtIfEmpty_def
      RemoveTileAt_def SwapTilesIfRequired_def clear_slot_def erase_bundle_def Let_def
      split: option.splits)

lemma slots_clear_slot:
  "slots (bundle_store (clear_slot tree i j b w) b') slot =
     (if b' = b \<and> slot = (tree, i, j) then None else slots (bundle_store w b') slot)"
  by (simp add: clear_slot_def)

lemma bundle_cells_clear_slot [simp]:
  "bundle_cells (bundle_store (clear_slot tree i j b w) b') = bundle_cells (bundle_store w b')"
  by (simp add: clear_slot_def bundle_cells_def)

lemma clear_slot_fields [simp]:
  "tile_requests (clear_slot tree i j b w) = tile_requests w"
  "bundle_requests (clear_slot tree i j b w) = bundle_requests w"
  "next_tile (clear_slot tree i j b w) = next_tile w"
  "next_bundle (clear_slot tree i j b w) = next_bundle w"
  by (simp_all add: clear_slot_def)

lemma BundleIsEmpty_inside:
  assumes "\<forall>tree i j. slots b (tree, i, j) \<noteq> None \<longrightarrow> (i, j) \<in> set (bundle_cells b)"
  shows "BundleIsEmpty b \<longleftrightarrow> (\<forall>slot. slots b slot = None)"
proof
  assume e: "BundleIsEmpty b"
  show "\<forall>slot. slots b slot = None"
  proof
    fix slot :: "WhichTree \<times> int \<times> int"
    obtain tree i j where s: "slot = (tree, i, j)" by (cases slot) auto
    show "slots b slot = None"
    proof (rule ccontr)
      assume "slots b slot \<noteq> None"
      with assms s have "(i, j) \<in> set (bundle_cells b)" by simp
      moreover have "tree \<in> {ACTIVE_TREE, PENDING_TREE}" by (cases tree) simp_all
      ultimately have "slots b (tree, i, j) = None"
        using e unfolding BundleIsEmpty_def by fastforce
      with \<open>slots b slot \<noteq> None\<close> s show False by simp
    qed
  qed
next
  assume "\<forall>slot. slots b slot = None"
  then show "BundleIsEmpty b" by (auto simp: BundleIsEmpty_def)
qed

lemma slots_insideD:
  "slots_inside w t \<Longrightarrow> tile_bundles t key = Some b \<Longrightarrow>
   slots (bundle_store w b) (tree, i, j) \<noteq> None \<Longrightarrow>
   (i, j) \<in> set (bundle_cells (bundle_store w b))"
  unfolding slots_inside_def by blast

lemma slots_inside_shrink:
  assumes "slots_inside w t"
    and "\<And>key b. tile_bundles t1 key = Some b \<Longrightarrow> tile_bundles t key = Some b"
    and "\<And>b slot. slots (bundle_store w1 b) slot \<noteq> None \<Longrightarrow>
           slots (bundle_store w b) slot \<noteq> None"
    and "\<And>b. bundle_cells (bundle_store w1 b) = bundle_cells (bundle_store w b)"
  shows "slots_inside w1 t1"
  unfolding slots_inside_def
proof (intro allI impI)
  fix key b tree i j
  assume "tile_bundles t1 key = Some b" and "slots (bundle_store w1 b) (tree, i, j) \<noteq> None"
  then have "tile_bundles t key = Some b" "slots (bundle_store w b) (tree, i, j) \<noteq> None"
    using assms(2,3) by blast+
  with assms(1) have "(i, j) \<in> set (bundle_cells (bundle_store w b))"
    unfolding slots_inside_def by blast
  then show "(i, j) \<in> set (bundle_cells (bundle_store w1 b))" by (simp add: assms(4))
qed

text \<open>One removal step: what it does to the lookups, and what it keeps.\<close>

lemma remove_outside_step:
  assumes "slots_inside w t" and "remove_outside tree (i, j) (w, t) = (w1, t1)"
  shows "slots_inside w1 t1"
    and "TileAt w1 t1 tree' i' j' =
           (if tree' = tree \<and> (i', j') = (i, j) then None else TileAt w t tree' i' j')"
proof -
  let ?key = "ComputeTileBundleIndex i j"
  show "slots_inside w1 t1"
  proof (rule slots_inside_shrink [OF assms(1)])
    show "tile_bundles t key = Some b" if "tile_bundles t1 key = Some b" for key b
      using that assms(2) unfolding remove_outside_eq
      by (auto simp: erase_bundle_def split: option.splits if_splits)
    show "slots (bundle_store w b) slot \<noteq> None"
      if "slots (bundle_store w1 b) slot \<noteq> None" for b slot
      using that assms(2) unfolding remove_outside_eq
      by (auto simp: slots_clear_slot split: option.splits if_splits)
    show "bundle_cells (bundle_store w1 b) = bundle_cells (bundle_store w b)" for b
      using assms(2) unfolding remove_outside_eq
      by (auto split: option.splits if_splits)
  qed
  show "TileAt w1 t1 tree' i' j' =
           (if tree' = tree \<and> (i', j') = (i, j) then None else TileAt w t tree' i' j')"
  proof (cases "tile_bundles t ?key")
    case None
    with assms(2) have "w1 = w" "t1 = t" by (simp_all add: remove_outside_eq)
    with None show ?thesis
      by (auto simp: TileAt_def TileBundleContainingTileAt_def)
  next
    case (Some b)
    let ?w = "clear_slot tree i j b w"
    have w1: "w1 = ?w" using assms(2) Some by (simp add: remove_outside_eq split: if_splits)
    have inside: "\<forall>tr a c. slots (bundle_store ?w b) (tr, a, c) \<noteq> None \<longrightarrow>
                   (a, c) \<in> set (bundle_cells (bundle_store ?w b))"
    proof (intro allI impI)
      fix tr a c
      assume "slots (bundle_store ?w b) (tr, a, c) \<noteq> None"
      then have "slots (bundle_store w b) (tr, a, c) \<noteq> None"
        by (simp add: slots_clear_slot split: if_splits)
      from slots_insideD [OF assms(1) Some this]
      show "(a, c) \<in> set (bundle_cells (bundle_store ?w b))" by simp
    qed
    show ?thesis
    proof (cases "BundleIsEmpty (bundle_store ?w b)")
      case True
      then have t1: "t1 = erase_bundle ?key t"
        using assms(2) Some by (simp add: remove_outside_eq)
      from True inside have none: "slots (bundle_store ?w b) slot = None" for slot
        using BundleIsEmpty_inside by blast
      show ?thesis
      proof (cases "ComputeTileBundleIndex i' j' = ?key")
        case True
        then have "TileAt w1 t1 tree' i' j' = None"
          by (simp add: t1 TileAt_def TileBundleContainingTileAt_def erase_bundle_def)
        moreover have "TileAt w t tree' i' j' = None" if "\<not> (tree' = tree \<and> (i', j') = (i, j))"
          using none [of "(tree', i', j')"] that True Some
          by (auto simp: TileAt_in_bundle slots_clear_slot split: if_splits)
        ultimately show ?thesis by auto
      next
        case False
        then have ne: "(i', j') \<noteq> (i, j)" by auto
        from False have "tile_bundles t1 (ComputeTileBundleIndex i' j') =
                         tile_bundles t (ComputeTileBundleIndex i' j')"
          by (simp add: t1 erase_bundle_def)
        with ne show ?thesis
          by (auto simp: w1 TileAt_def TileBundleContainingTileAt_def BundleTileAt_def
              SwapTilesIfRequired_def slots_clear_slot split: option.splits)
      qed
    next
      case False
      then have t1: "t1 = t" using assms(2) Some by (simp add: remove_outside_eq)
      show ?thesis
      proof (cases "tile_bundles t (ComputeTileBundleIndex i' j')")
        case None
        with Some have "(i', j') \<noteq> (i, j)" by auto
        with None show ?thesis by (simp add: t1 TileAt_def TileBundleContainingTileAt_def)
      next
        case s: (Some b')
        show ?thesis
          using s Some unfolding w1 t1
          by (auto simp: TileAt_in_bundle slots_clear_slot)
      qed
    qed
  qed
qed

lemma remove_outside_cases:
  assumes "remove_outside tree cell (w, t) = (w1, t1)"
  obtains (absent) "tile_bundles t (cell_key cell) = None" "w1 = w" "t1 = t"
  | (kept) b where "tile_bundles t (cell_key cell) = Some b"
      "w1 = clear_slot tree (fst cell) (snd cell) b w" "t1 = t"
      "\<not> BundleIsEmpty (bundle_store w1 b)"
  | (erased) b where "tile_bundles t (cell_key cell) = Some b"
      "w1 = clear_slot tree (fst cell) (snd cell) b w" "t1 = erase_bundle (cell_key cell) t"
      "BundleIsEmpty (bundle_store w1 b)"
proof (cases "tile_bundles t (cell_key cell)")
  case None
  with assms have "w1 = w" "t1 = t"
    by (cases cell; simp add: remove_outside_eq cell_key_def)+
  with None show ?thesis by (rule absent)
next
  case (Some b)
  let ?w = "clear_slot tree (fst cell) (snd cell) b w"
  have e: "remove_outside tree cell (w, t) =
      (if BundleIsEmpty (bundle_store ?w b) then (?w, erase_bundle (cell_key cell) t)
       else (?w, t))"
    using Some by (cases cell) (simp add: remove_outside_eq cell_key_def)
  show ?thesis
  proof (cases "BundleIsEmpty (bundle_store ?w b)")
    case True
    with e assms have "w1 = ?w" "t1 = erase_bundle (cell_key cell) t" by simp_all
    with Some True show ?thesis by (intro erased) simp_all
  next
    case False
    with e assms have "w1 = ?w" "t1 = t" by simp_all
    with Some False show ?thesis by (intro kept) simp_all
  qed
qed

lemma remove_outside_frame:
  assumes "remove_outside tree cell (w, t) = (w1, t1)"
  shows "tile_requests w1 = tile_requests w" and "bundle_requests w1 = bundle_requests w"
    and "next_tile w1 = next_tile w" and "next_bundle w1 = next_bundle w"
    and "t1 = t\<lparr>tile_bundles := tile_bundles t1\<rparr>"
    and "tile_bundles t1 key = Some b \<Longrightarrow> tile_bundles t key = Some b"
    and "key \<noteq> cell_key cell \<Longrightarrow> tile_bundles t1 key = tile_bundles t key"
    and "slots (bundle_store w1 b) slot \<noteq> None \<Longrightarrow> slots (bundle_store w b) slot \<noteq> None"
    and "bundle_cells (bundle_store w1 b) = bundle_cells (bundle_store w b)"
    and "tile_bundles t (cell_key cell) \<noteq> Some b \<Longrightarrow> bundle_store w1 b = bundle_store w b"
proof -
  show "tile_requests w1 = tile_requests w" "bundle_requests w1 = bundle_requests w"
    "next_tile w1 = next_tile w" "next_bundle w1 = next_bundle w"
    "bundle_cells (bundle_store w1 b) = bundle_cells (bundle_store w b)"
    by (cases rule: remove_outside_cases [OF assms]; simp)+
  show "t1 = t\<lparr>tile_bundles := tile_bundles t1\<rparr>"
    by (cases rule: remove_outside_cases [OF assms]) (simp_all add: erase_bundle_def)
  show "tile_bundles t key = Some b" if "tile_bundles t1 key = Some b"
    using that
    by (cases rule: remove_outside_cases [OF assms])
      (simp_all add: erase_bundle_def split: if_splits)
  show "tile_bundles t1 key = tile_bundles t key" if "key \<noteq> cell_key cell"
    using that
    by (cases rule: remove_outside_cases [OF assms]) (simp_all add: erase_bundle_def)
  show "slots (bundle_store w b) slot \<noteq> None" if "slots (bundle_store w1 b) slot \<noteq> None"
    using that
    by (cases rule: remove_outside_cases [OF assms])
      (simp_all add: slots_clear_slot split: if_splits)
  show "bundle_store w1 b = bundle_store w b" if "tile_bundles t (cell_key cell) \<noteq> Some b"
    using that
    by (cases rule: remove_outside_cases [OF assms]) (auto simp: clear_slot_def)
qed

lemma remove_outside_entry:
  assumes "remove_outside tree cell (w, t) = (w1, t1)"
  shows "tile_bundles t1 (cell_key cell) =
           (case tile_bundles t (cell_key cell) of
              None \<Rightarrow> None
            | Some b \<Rightarrow> if BundleIsEmpty (bundle_store w1 b) then None else Some b)"
  by (cases rule: remove_outside_cases [OF assms]) (simp_all add: erase_bundle_def)

lemma remove_fold:
  assumes "slots_inside w t" and "fold (remove_outside tree) cells (w, t) = (w', t')"
  shows "slots_inside w' t' \<and>
         (\<forall>tree' i j. TileAt w' t' tree' i j =
            (if tree' = tree \<and> (i, j) \<in> set cells then None else TileAt w t tree' i j))"
  using assms
proof (induction cells arbitrary: w t)
  case Nil
  then show ?case by simp
next
  case (Cons cell cells)
  obtain w1 t1 where s: "remove_outside tree cell (w, t) = (w1, t1)" by force
  obtain a b where c: "cell = (a, b)" by force
  note st = remove_outside_step [OF Cons.prems(1) s [unfolded c]]
  from Cons.prems(2) s have "fold (remove_outside tree) cells (w1, t1) = (w', t')" by simp
  from Cons.IH [OF st(1) this]
  have ih: "slots_inside w' t'"
    "\<And>tree' i j. TileAt w' t' tree' i j =
       (if tree' = tree \<and> (i, j) \<in> set cells then None else TileAt w1 t1 tree' i j)"
    by simp_all
  have "TileAt w' t' tree' i j =
         (if tree' = tree \<and> (i, j) \<in> set (cell # cells) then None else TileAt w t tree' i j)"
    for tree' i j
    unfolding ih(2) st(2) c by auto
  with ih(1) show ?case by blast
qed

lemma remove_fold_frame:
  assumes "fold (remove_outside tree) cells (w, t) = (w', t')"
  shows "tile_requests w' = tile_requests w" and "bundle_requests w' = bundle_requests w"
    and "next_tile w' = next_tile w" and "next_bundle w' = next_bundle w"
    and "t' = t\<lparr>tile_bundles := tile_bundles t'\<rparr>"
  using assms
proof (induction cells arbitrary: w t)
  case Nil
  { case 1 then show ?case by simp }
  { case 2 then show ?case by simp }
  { case 3 then show ?case by simp }
  { case 4 then show ?case by simp }
  { case 5 then show ?case by simp }
next
  case (Cons cell cells)
  { case 1
    obtain w1 t1 where s: "remove_outside tree cell (w, t) = (w1, t1)" by force
    with 1 have "fold (remove_outside tree) cells (w1, t1) = (w', t')" by simp
    from Cons(1) [OF this] remove_outside_frame(1) [OF s] show ?case by simp }
  { case 2
    obtain w1 t1 where s: "remove_outside tree cell (w, t) = (w1, t1)" by force
    with 2 have "fold (remove_outside tree) cells (w1, t1) = (w', t')" by simp
    from Cons(2) [OF this] remove_outside_frame(2) [OF s] show ?case by simp }
  { case 3
    obtain w1 t1 where s: "remove_outside tree cell (w, t) = (w1, t1)" by force
    with 3 have "fold (remove_outside tree) cells (w1, t1) = (w', t')" by simp
    from Cons(3) [OF this] remove_outside_frame(3) [OF s] show ?case by simp }
  { case 4
    obtain w1 t1 where s: "remove_outside tree cell (w, t) = (w1, t1)" by force
    with 4 have "fold (remove_outside tree) cells (w1, t1) = (w', t')" by simp
    from Cons(4) [OF this] remove_outside_frame(4) [OF s] show ?case by simp }
  { case 5
    obtain w1 t1 where s: "remove_outside tree cell (w, t) = (w1, t1)" by force
    with 5 have "fold (remove_outside tree) cells (w1, t1) = (w', t')" by simp
    from Cons(5) [OF this] have "t' = t1\<lparr>tile_bundles := tile_bundles t'\<rparr>" .
    also have "\<dots> = t\<lparr>tile_bundles := tile_bundles t'\<rparr>"
      by (subst remove_outside_frame(5) [OF s]) simp
    finally show ?case . }
qed

lemma remove_fold_shrinks:
  assumes "fold (remove_outside tree) cells (w, t) = (w', t')"
  shows "(\<forall>key b. tile_bundles t' key = Some b \<longrightarrow> tile_bundles t key = Some b) \<and>
         (\<forall>b slot. slots (bundle_store w' b) slot \<noteq> None \<longrightarrow>
                   slots (bundle_store w b) slot \<noteq> None) \<and>
         (\<forall>b. bundle_cells (bundle_store w' b) = bundle_cells (bundle_store w b))"
  using assms
proof (induction cells arbitrary: w t)
  case Nil
  then show ?case by simp
next
  case (Cons cell cells)
  obtain w1 t1 where s: "remove_outside tree cell (w, t) = (w1, t1)" by force
  with Cons.prems have "fold (remove_outside tree) cells (w1, t1) = (w', t')" by simp
  note ih = Cons.IH [OF this]
  note f = remove_outside_frame [OF s]
  have "tile_bundles t key = Some b" if "tile_bundles t' key = Some b" for key b
    using that ih f(6) by blast
  moreover have "slots (bundle_store w b) slot \<noteq> None"
    if "slots (bundle_store w' b) slot \<noteq> None" for b slot
    using that ih f(8) by blast
  moreover have "bundle_cells (bundle_store w' b) = bundle_cells (bundle_store w b)" for b
    using ih f(9) [of b] by simp
  ultimately show ?case by blast
qed

lemma remove_fold_untouched:
  assumes "fold (remove_outside tree) cells (w, t) = (w', t')"
    and "\<forall>cell \<in> set cells. tile_bundles t (cell_key cell) \<noteq> Some b"
  shows "bundle_store w' b = bundle_store w b"
  using assms
proof (induction cells arbitrary: w t)
  case Nil
  then show ?case by simp
next
  case (Cons cell cells)
  obtain w1 t1 where s: "remove_outside tree cell (w, t) = (w1, t1)" by force
  with Cons.prems have r: "fold (remove_outside tree) cells (w1, t1) = (w', t')" by simp
  note f = remove_outside_frame [OF s]
  have "\<forall>c \<in> set cells. tile_bundles t1 (cell_key c) \<noteq> Some b"
  proof
    fix c assume "c \<in> set cells"
    with Cons.prems(2) have "tile_bundles t (cell_key c) \<noteq> Some b" by simp
    with f(6) [of "cell_key c" b] show "tile_bundles t1 (cell_key c) \<noteq> Some b" by blast
  qed
  from Cons.IH [OF r this] have "bundle_store w' b = bundle_store w1 b" .
  moreover have "bundle_store w1 b = bundle_store w b"
    using Cons.prems(2) by (intro f(10)) simp
  ultimately show ?case by simp
qed

lemma remove_fold_other_keys:
  assumes "fold (remove_outside tree) cells (w, t) = (w', t')" and "key \<notin> cell_key ` set cells"
  shows "tile_bundles t' key = tile_bundles t key"
  using assms
proof (induction cells arbitrary: w t)
  case Nil
  then show ?case by simp
next
  case (Cons cell cells)
  obtain w1 t1 where s: "remove_outside tree cell (w, t) = (w1, t1)" by force
  with Cons.prems have r: "fold (remove_outside tree) cells (w1, t1) = (w', t')" by simp
  from Cons.prems(2) have "key \<notin> cell_key ` set cells" "key \<noteq> cell_key cell" by auto
  with Cons.IH [OF r] remove_outside_frame(7) [OF s] show ?case by simp
qed

lemma distinct_bundles_shrink:
  assumes "distinct_bundles t"
    and "\<And>key b. tile_bundles t1 key = Some b \<Longrightarrow> tile_bundles t key = Some b"
  shows "distinct_bundles t1"
  using assms unfolding distinct_bundles_def by blast

lemma BundleIsEmpty_shrinks:
  assumes "BundleIsEmpty b1"
    and "\<And>slot. slots b2 slot \<noteq> None \<Longrightarrow> slots b1 slot \<noteq> None"
    and "bundle_cells b2 = bundle_cells b1"
  shows "BundleIsEmpty b2"
  unfolding BundleIsEmpty_def
proof (intro ballI)
  fix tree cell
  assume "tree \<in> {ACTIVE_TREE, PENDING_TREE}" and "cell \<in> set (bundle_cells b2)"
  with assms(1,3) have "slots b1 (tree, fst cell, snd cell) = None"
    unfolding BundleIsEmpty_def by auto
  with assms(2) [of "(tree, fst cell, snd cell)"]
  show "slots b2 (tree, fst cell, snd cell) = None" by blast
qed

text \<open>Which entries the removal pass erases.\<close>

lemma remove_fold_entries:
  assumes "distinct_bundles t" and "fold (remove_outside tree) cells (w, t) = (w', t')"
  shows "tile_bundles t' key =
           (if key \<in> cell_key ` set cells \<and>
               (\<exists>b. tile_bundles t key = Some b \<and> BundleIsEmpty (bundle_store w' b))
            then None else tile_bundles t key)"
  using assms
proof (induction cells arbitrary: w t)
  case Nil
  then show ?case by simp
next
  case (Cons cell cells)
  obtain w1 t1 where s: "remove_outside tree cell (w, t) = (w1, t1)" by force
  with Cons.prems have r: "fold (remove_outside tree) cells (w1, t1) = (w', t')" by simp
  note f = remove_outside_frame [OF s]
  have d1: "distinct_bundles t1"
    using Cons.prems(1) f(6) by (rule distinct_bundles_shrink)
  note ih = Cons.IH [OF d1 r]
  note sh = remove_fold_shrinks [OF r]
  show ?case
  proof (cases "key = cell_key cell")
    case False
    with f(7) have "tile_bundles t1 key = tile_bundles t key" by simp
    with ih False show ?thesis by auto
  next
    case True
    from s show ?thesis
    proof (cases rule: remove_outside_cases)
      case absent
      then have n: "tile_bundles t key = None" "tile_bundles t1 key = None"
        using True by simp_all
      from ih n(2) have "tile_bundles t' key = None" by simp
      with n(1) show ?thesis by simp
    next
      case (erased b)
      have e: "BundleIsEmpty (bundle_store w' b)"
      proof (rule BundleIsEmpty_shrinks [OF erased(4)])
        show "slots (bundle_store w1 b) slot \<noteq> None"
          if "slots (bundle_store w' b) slot \<noteq> None" for slot
          using that sh by blast
        show "bundle_cells (bundle_store w' b) = bundle_cells (bundle_store w1 b)"
          using sh by blast
      qed
      have "tile_bundles t1 key = None"
        using erased(3) True by (simp add: erase_bundle_def)
      with ih have "tile_bundles t' key = None" by simp
      moreover have "key \<in> cell_key ` set (cell # cells)" using True by simp
      moreover have "\<exists>b. tile_bundles t key = Some b \<and> BundleIsEmpty (bundle_store w' b)"
        using erased(1) e True by blast
      ultimately show ?thesis by (simp only: if_True simp_thms)
    next
      case (kept b)
      have t1: "tile_bundles t1 key = Some b" and t0: "tile_bundles t key = Some b"
        using kept True by simp_all
      have in_k: "key \<in> cell_key ` set (cell # cells)" using True by simp
      have goal: "tile_bundles t' key =
          (if BundleIsEmpty (bundle_store w' b) then None else Some b)"
      proof (cases "key \<in> cell_key ` set cells")
        case k: True
        from ih have "tile_bundles t' key =
            (if \<exists>b'. tile_bundles t1 key = Some b' \<and> BundleIsEmpty (bundle_store w' b')
             then None else tile_bundles t1 key)"
          using k by (simp only: if_True simp_thms)
        then show ?thesis by (simp add: t1)
      next
        case k: False
        have "\<forall>c \<in> set cells. tile_bundles t1 (cell_key c) \<noteq> Some b"
        proof
          fix c assume c: "c \<in> set cells"
          show "tile_bundles t1 (cell_key c) \<noteq> Some b"
          proof
            assume "tile_bundles t1 (cell_key c) = Some b"
            with d1 t1 have "cell_key c = key" unfolding distinct_bundles_def by blast
            with c k show False by blast
          qed
        qed
        from remove_fold_untouched [OF r this] kept(4)
        have ne: "\<not> BundleIsEmpty (bundle_store w' b)" by simp
        from ih k have "tile_bundles t' key = tile_bundles t1 key"
          by (simp only: if_False simp_thms)
        with ne t1 show ?thesis by simp
      qed
      have "(\<exists>b'. tile_bundles t key = Some b' \<and> BundleIsEmpty (bundle_store w' b')) =
            BundleIsEmpty (bundle_store w' b)"
        by (simp add: t0)
      with goal in_k t0 show ?thesis by (simp only: simp_thms)
    qed
  qed
qed

lemma TileAt_live_rect [simp]:
  "TileAt w (t\<lparr>live_tiles_rect := r\<rparr>) tree i j = TileAt w t tree i j"
  by (simp add: TileAt_def TileBundleContainingTileAt_def TileBundleAt_def)

text \<open>
  Claim C4. In a state whose bundles are well formed (occupied slots lie in the cells of
  their bundle, and no bundle stands at two keys), changing the live tiles rectangle from
  \<open>A\<close> to a different rectangle \<open>B\<close> that is empty or contained in \<open>A\<close> succeeds and
  removes exactly the current tree's tiles at the cells the difference iterator yields for
  \<open>A\<close> without \<open>B\<close>: every other lookup, for either tree, returns the tile it returned
  before, and the collaborator is asked for no tile and no bundle. A map entry is erased
  exactly when its key is the key of a removed cell and its bundle is empty afterwards.
\<close>

theorem SetLiveTilesRect_shrinks:
  assumes "slots_inside w t" and "distinct_bundles t"
    and "new_rect \<noteq> live_tiles_rect t"
    and "IsEmpty new_rect \<or> Contains (live_tiles_rect t) new_rect"
    and "IsEmpty new_rect \<or> Contains (ContentRect t) new_rect"
  shows "\<exists>w' t'. SetLiveTilesRect client new_rect (w, t) = Inr (w', t') \<and>
           live_tiles_rect t' = new_rect \<and>
           (\<forall>tree i j. TileAt w' t' tree i j =
              (if tree = current_tree t \<and>
                  (i, j) \<in> set (DifferenceIteratorCells (tiling_data t) (live_tiles_rect t)
                                  new_rect)
               then None else TileAt w t tree i j)) \<and>
           (\<forall>key. tile_bundles t' key =
              (if key \<in> cell_key ` set (DifferenceIteratorCells (tiling_data t)
                                           (live_tiles_rect t) new_rect) \<and>
                  (\<exists>b. tile_bundles t key = Some b \<and> BundleIsEmpty (bundle_store w' b))
               then None else tile_bundles t key)) \<and>
           tile_requests w' = tile_requests w \<and> bundle_requests w' = bundle_requests w \<and>
           next_tile w' = next_tile w"
proof -
  let ?cells = "DifferenceIteratorCells (tiling_data t) (live_tiles_rect t) new_rect"
  obtain w1 t1 where f: "fold (remove_outside (current_tree t)) ?cells (w, t) = (w1, t1)"
    by force
  have none: "DifferenceIteratorCells (tiling_data t) new_rect (live_tiles_rect t) = []"
    using assms(4) by (rule DifferenceIteratorCells_contained)
  have res: "SetLiveTilesRect client new_rect (w, t) =
               Inr (w1, t1\<lparr>live_tiles_rect := new_rect\<rparr>)"
    using assms(3,5) f none by (simp add: SetLiveTilesRect_def Let_def)
  note r = remove_fold [OF assms(1) f]
  note fr = remove_fold_frame [OF f]
  note en = remove_fold_entries [OF assms(2) f]
  have "\<forall>tree i j. TileAt w1 (t1\<lparr>live_tiles_rect := new_rect\<rparr>) tree i j =
          (if tree = current_tree t \<and> (i, j) \<in> set ?cells then None else TileAt w t tree i j)"
    using r by simp
  moreover have "\<forall>key. tile_bundles (t1\<lparr>live_tiles_rect := new_rect\<rparr>) key =
          (if key \<in> cell_key ` set ?cells \<and>
              (\<exists>b. tile_bundles t key = Some b \<and> BundleIsEmpty (bundle_store w1 b))
           then None else tile_bundles t key)"
    using en by simp
  moreover have "live_tiles_rect (t1\<lparr>live_tiles_rect := new_rect\<rparr>) = new_rect" by simp
  ultimately show ?thesis using res fr(1-3) by blast
qed

theorem SetLiveTilesRect_shrinks_witness:
  "slots_inside example_live_world example_live_tiling \<and>
   distinct_bundles example_live_tiling \<and>
   MakeRect 0 0 100 100 \<noteq> live_tiles_rect example_live_tiling \<and>
   Contains (live_tiles_rect example_live_tiling) (MakeRect 0 0 100 100) \<and>
   Contains (ContentRect example_live_tiling) (MakeRect 0 0 100 100) \<and>
   (\<exists>w' t'. SetLiveTilesRect example_client (MakeRect 0 0 100 100)
              (example_live_world, example_live_tiling) = Inr (w', t') \<and>
      live_tiles_rect t' = MakeRect 0 0 100 100 \<and>
      TileAt w' t' PENDING_TREE 1 0 = None \<and> TileAt w' t' PENDING_TREE 0 0 = Some 0 \<and>
      tile_bundles t' (0, 0) = Some 0 \<and>
      tile_requests w' = tile_requests example_live_world)"
proof -
  have h1: "slots_inside example_live_world example_live_tiling"
    by (auto simp: slots_inside_def example_live_world_def example_live_tiling_def
        bundle_cells_def set_cells_between split: if_splits)
  have h2: "distinct_bundles example_live_tiling"
    by (auto simp: distinct_bundles_def example_live_tiling_def split: if_splits)
  have h3: "MakeRect 0 0 100 100 \<noteq> live_tiles_rect example_live_tiling"
    by (simp add: example_live_tiling_def MakeRect_def)
  have h4: "Contains (live_tiles_rect example_live_tiling) (MakeRect 0 0 100 100)"
    by (simp add: example_live_tiling_def Contains_def right_def bottom_def)
  have h5: "Contains (ContentRect example_live_tiling) (MakeRect 0 0 100 100)"
    by code_simp
  have c1: "current_tree example_live_tiling = PENDING_TREE"
    by (simp add: example_live_tiling_def example_tiling_def)
  have c2: "set (DifferenceIteratorCells (tiling_data example_live_tiling)
              (live_tiles_rect example_live_tiling) (MakeRect 0 0 100 100)) = {(1, 0)}"
    by code_simp
  have c3: "TileAt example_live_world example_live_tiling PENDING_TREE 0 0 = Some 0"
    by code_simp
  have c4: "tile_bundles example_live_tiling (0, 0) = Some 0"
    by (simp add: example_live_tiling_def)
  from SetLiveTilesRect_shrinks [OF h1 h2 h3 disjI2 [OF h4] disjI2 [OF h5], of example_client]
  obtain w' t' where r:
    "SetLiveTilesRect example_client (MakeRect 0 0 100 100)
       (example_live_world, example_live_tiling) = Inr (w', t')"
    "live_tiles_rect t' = MakeRect 0 0 100 100"
    "\<forall>tree i j. TileAt w' t' tree i j =
       (if tree = PENDING_TREE \<and> (i, j) \<in> {(1, 0)} then None
        else TileAt example_live_world example_live_tiling tree i j)"
    "\<forall>key. tile_bundles t' key =
       (if key \<in> cell_key ` {(1, 0)} \<and>
           (\<exists>b. tile_bundles example_live_tiling key = Some b \<and>
                BundleIsEmpty (bundle_store w' b))
        then None else tile_bundles example_live_tiling key)"
    "tile_requests w' = tile_requests example_live_world"
    unfolding c1 c2 by blast
  from r(3) c3 have t: "TileAt w' t' PENDING_TREE 1 0 = None" "TileAt w' t' PENDING_TREE 0 0 = Some 0"
    by simp_all
  have "\<not> BundleIsEmpty (bundle_store w' 0)"
  proof
    assume "BundleIsEmpty (bundle_store w' 0)"
    with r(4) [rule_format, of "(0, 0)"] c4
    have "tile_bundles t' (0, 0) = None"
      by (simp add: cell_key_def ComputeTileBundleIndex_def int_div_def kTileBundleWidth_def
          kTileBundleHeight_def)
    then have "TileAt w' t' PENDING_TREE 0 0 = None"
      by (simp add: TileAt_def TileBundleContainingTileAt_def TileBundleAt_def
          ComputeTileBundleIndex_def int_div_def kTileBundleWidth_def kTileBundleHeight_def)
    with t(2) show False by simp
  qed
  with r(4) [rule_format, of "(0, 0)"] c4 have "tile_bundles t' (0, 0) = Some 0" by simp
  with r(1,2,5) t h1 h2 h3 h4 h5 show ?thesis by blast
qed

end
